theory Spec2Isabelle
  imports Main "HOL-Library.Multiset" "HOL-Library.Sublist"
begin

section \<open>The worker pool of pool.go as an interleaving of steps\<close>

text \<open>
  The package runs three kinds of goroutines: the callers of \<^verbatim>\<open>Execute\<close>, the workers
  started by \<^verbatim>\<open>Pool\<close>, and whoever owns the \<^verbatim>\<open>done\<close> channel and the callers'
  contexts. The model is the usual interleaving one: a global state, and one atomic step
  for each stretch of code between two channel operations. Every step is a function that
  returns \<open>None\<close> where the Go statement would block, so a schedule (a list of events)
  either runs or does not, and can be evaluated. Where Go leaves a choice (which goroutine
  runs next, which ready case a \<^verbatim>\<open>select\<close> takes) the schedule makes it.

  What is taken from outside the file: package context (a context made by
  \<^verbatim>\<open>WithCancel\<close> ends when \<^verbatim>\<open>cancel\<close> is called or when its parent ends, whichever
  is first, and \<^verbatim>\<open>Err\<close> then returns \<open>Canceled\<close> or the parent's error), the semantics
  of channels and of \<^verbatim>\<open>select\<close>, \<^verbatim>\<open>runtime.NumCPU\<close>, and the interface
  \<^verbatim>\<open>Action\<close>. The caller passes a context, not nil; \<^verbatim>\<open>done\<close> is closed, never sent
  on, as the comment of \<^verbatim>\<open>Pool\<close> asks.

  A Go value of type \<^verbatim>\<open>error\<close> is an \<open>error option\<close>, \<open>None\<close> being nil.
  \<open>New s\<close> is \<^verbatim>\<open>errors.New(s)\<close>, \<open>Canceled\<close> and \<open>DeadlineExceeded\<close> are the two
  errors of package context, \<open>Other k\<close> stands for the errors of the caller's own types.
\<close>

datatype error = New string | Canceled | DeadlineExceeded | Other nat

type_synonym result = "error option"

text \<open>
  A context is modelled by what \<^verbatim>\<open>ctx.Err()\<close> returns: nil (\<open>None\<close>) as long as
  \<^verbatim>\<open>ctx.Done()\<close> is open, and the reason once it is closed. A channel of capacity \<open>k\<close>
  is the list of the values it buffers: a send is ready when the list is shorter than
  \<open>k\<close>, a receive when it is not empty. Contexts and channels are shared objects, so
  an envelope holds references to them: the number of the \<^verbatim>\<open>Execute\<close> call that made
  them (line 30 and line 33 make one of each per call).
\<close>

record 'a poolAction =
  ctx :: nat
  action :: 'a
  response :: nat

text \<open>
  One call of \<^verbatim>\<open>Execute\<close>. \<open>actions\<close> and \<open>parent\<close> are its arguments (the slice, and
  the state of the caller's context); \<open>derived\<close>, \<open>res\<close>, \<open>err\<close> and \<open>queued\<close> are its
  locals (\<open>derived\<close> is the context of line 30, \<open>res\<close> the buffer of the channel of
  line 33 and \<open>res_cap\<close> its capacity). \<open>queued\<close> is a \<^verbatim>\<open>uint64\<close>, a number
  below \<open>2 ^ 64\<close>: the increment of line 49 is taken modulo \<open>2 ^ 64\<close>, the decrement of
  line 53 happens only above zero. \<open>pc\<close> is the place the call has reached: before line
  25, at the \<^verbatim>\<open>select\<close> of line 41 with the actions the range loop has still to visit,
  at the loop of line 53, or returned with a value.

  \<open>sent\<close> and \<open>got\<close> are history variables, read by no step: the actions enqueued so
  far, and the values received from \<open>res\<close> so far.
\<close>

datatype 'a pc = AtEntry | Enqueuing "'a list" | Collecting | Returned result

record 'a call =
  actions :: "'a list"
  parent :: result
  pc :: "'a pc"
  derived :: result
  res :: "result list"
  res_cap :: nat
  err :: result
  queued :: nat
  sent :: "'a list"
  got :: "result list"

text \<open>
  A worker is at its \<^verbatim>\<open>select\<close> (line 67), inside \<^verbatim>\<open>a.action.Execute(a.ctx)\<close>, about
  to send the value that call returned (line 71), or has returned (line 69).
\<close>

datatype 'a worker = Idle | Busy "'a poolAction" | Sending "'a poolAction" result | Exited

text \<open>
  The pool: the \<^verbatim>\<open>done\<close> channel (closed or not), the buffer and the capacity of
  \<^verbatim>\<open>p.in\<close>, the workers, and the calls of \<^verbatim>\<open>Execute\<close> made so far. \<open>finished\<close> is a
  history variable: every envelope whose action has returned, with the value returned.
\<close>

record 'a state =
  p_done :: bool
  p_in :: "'a poolAction list"
  p_in_cap :: nat
  workers :: "'a worker list"
  calls :: "'a call list"
  finished :: "('a poolAction \<times> result) list"

subsection \<open>Pool\<close>

text \<open>
  The loop of line 87 starts one worker per iteration. \<^verbatim>\<open>runtime.NumCPU\<close> is a parameter,
  a count; \<open>n\<close> is a Go \<^verbatim>\<open>int\<close>, and the counter of the loop stays below it. (A
  capacity too large for the memory of the machine makes \<^verbatim>\<open>make\<close> panic; memory is
  not modelled.)
\<close>

function spawn :: "int \<Rightarrow> int \<Rightarrow> 'a worker list \<Rightarrow> 'a worker list" where
  "spawn i n ws = (if i < n then spawn (i + 1) n (ws @ [Idle]) else ws)"
  by pat_completeness auto
termination
  by (relation "measure (\<lambda>(i, n, ws). nat (n - i))") auto

declare spawn.simps [simp del]

definition Pool :: "nat \<Rightarrow> int \<Rightarrow> bool \<Rightarrow> 'a state" where
  "Pool ncpu n d =
     (let n = (if n \<le> 0 then int ncpu else n) in
      \<lparr>p_done = d, p_in = [], p_in_cap = nat n, workers = spawn 0 n [],
       calls = [], finished = []\<rparr>)"

subsection \<open>Execute\<close>

text \<open>
  \<^verbatim>\<open>cancel()\<close> closes the derived context with \<open>Canceled\<close> unless it is closed already;
  \<^verbatim>\<open>context.WithCancel(ctx)\<close> makes a context that is closed from the start, with the
  parent's reason, when the parent is.
\<close>

definition cancel :: "'a call \<Rightarrow> 'a call" where
  "cancel c = (if derived c = None then c\<lparr>derived := Some Canceled\<rparr> else c)"

text \<open>Lines 25 to 37: return nil on an empty slice, else set up the locals.\<close>

definition Execute_begin :: "'a call \<Rightarrow> 'a call option" where
  "Execute_begin c =
     (case pc c of
        AtEntry \<Rightarrow>
          (let qty = length (actions c) in
           if qty = 0 then Some (c\<lparr>pc := Returned None\<rparr>)
           else Some (c\<lparr>derived := parent c, res := [], res_cap := qty, err := None,
                        queued := 0, pc := Enqueuing (actions c)\<rparr>))
      | _ \<Rightarrow> None)"

text \<open>
  Lines 39 to 51, one iteration: the \<^verbatim>\<open>select\<close> with the case it takes. Go takes any one
  of the cases that are ready, so the case is part of the event, and the step is \<open>None\<close>
  when that case is not ready. The result is the call after the step and what was sent
  on \<^verbatim>\<open>p.in\<close>. The deferred \<^verbatim>\<open>cancel()\<close> runs on the return of line 44. After the
  send of the last action the range loop is left, as it is by the \<^verbatim>\<open>break\<close> of line
  47: the call is at line 53.
\<close>

datatype choice = CaseDone | CaseCtx | CaseSend

definition Execute_select ::
  "bool \<Rightarrow> bool \<Rightarrow> nat \<Rightarrow> choice \<Rightarrow> 'a call \<Rightarrow> ('a call \<times> 'a poolAction list) option" where
  "Execute_select done_closed room i ch c =
     (case pc c of
        Enqueuing as \<Rightarrow>
          (case as of
             [] \<Rightarrow> None
           | a # rest \<Rightarrow>
               (case ch of
                  CaseDone \<Rightarrow>
                    if done_closed
                    then Some ((cancel (cancel c))\<lparr>pc := Returned (Some (New ''pool is closed''))\<rparr>, [])
                    else None
                | CaseCtx \<Rightarrow>
                    if derived c \<noteq> None
                    then Some (c\<lparr>err := derived c, pc := Collecting\<rparr>, [])
                    else None
                | CaseSend \<Rightarrow>
                    if room
                    then Some (c\<lparr>queued := (queued c + 1) mod 2 ^ 64, sent := sent c @ [a],
                                 pc := (if rest = [] then Collecting else Enqueuing rest)\<rparr>,
                               [\<lparr>ctx = i, action = a, response = i\<rparr>])
                    else None))
      | _ \<Rightarrow> None)"

text \<open>Lines 53 to 60, one iteration: receive one value from \<open>res\<close>.\<close>

definition Execute_receive :: "'a call \<Rightarrow> 'a call option" where
  "Execute_receive c =
     (case pc c of
        Collecting \<Rightarrow>
          if queued c > 0 then
            (case res c of
               [] \<Rightarrow> None
             | r # rs \<Rightarrow>
                 (let c1 = c\<lparr>res := rs, got := got c @ [r]\<rparr>;
                      c2 = (if r \<noteq> None then
                              (if err c1 = None then cancel (c1\<lparr>err := r\<rparr>) else c1)
                            else c1)
                  in Some (c2\<lparr>queued := queued c2 - 1\<rparr>)))
          else None
      | _ \<Rightarrow> None)"

text \<open>Line 62, with the deferred \<^verbatim>\<open>cancel()\<close>.\<close>

definition Execute_return :: "'a call \<Rightarrow> 'a call option" where
  "Execute_return c =
     (case pc c of
        Collecting \<Rightarrow> if queued c > 0 then None else Some ((cancel c)\<lparr>pc := Returned (err c)\<rparr>)
      | _ \<Rightarrow> None)"

subsection \<open>work\<close>

text \<open>
  The loop of line 66 in four steps: the two cases of the \<^verbatim>\<open>select\<close>, the return of
  \<^verbatim>\<open>a.action.Execute(a.ctx)\<close>, and the send of line 71. \<^verbatim>\<open>Action\<close> is an interface
  declared in another file of the package; its method is the parameter \<open>exec\<close>, which is
  given the action and the state of the context it is called with, as it is when the call
  returns. A call of an action is taken to return. \<open>put_call\<close> stores a call in the
  state.
\<close>

definition put_call :: "nat \<Rightarrow> 'a call \<Rightarrow> 'a state \<Rightarrow> 'a state" where
  "put_call i c s = s\<lparr>calls := (calls s)[i := c]\<rparr>"

definition work_quit :: "nat \<Rightarrow> 'a state \<Rightarrow> 'a state option" where
  "work_quit w s =
     (if w < length (workers s) then
        (case workers s ! w of
           Idle \<Rightarrow> if p_done s then Some (s\<lparr>workers := (workers s)[w := Exited]\<rparr>) else None
         | _ \<Rightarrow> None)
      else None)"

definition work_take :: "nat \<Rightarrow> 'a state \<Rightarrow> 'a state option" where
  "work_take w s =
     (if w < length (workers s) then
        (case workers s ! w of
           Idle \<Rightarrow>
             (case p_in s of
                [] \<Rightarrow> None
              | a # q \<Rightarrow> Some (s\<lparr>p_in := q, workers := (workers s)[w := Busy a]\<rparr>))
         | _ \<Rightarrow> None)
      else None)"

definition work_call :: "('a \<Rightarrow> result \<Rightarrow> result) \<Rightarrow> nat \<Rightarrow> 'a state \<Rightarrow> 'a state option" where
  "work_call exec w s =
     (if w < length (workers s) then
        (case workers s ! w of
           Busy a \<Rightarrow>
             if ctx a < length (calls s) then
               (let r = exec (action a) (derived (calls s ! ctx a)) in
                Some (s\<lparr>workers := (workers s)[w := Sending a r], finished := finished s @ [(a, r)]\<rparr>))
             else None
         | _ \<Rightarrow> None)
      else None)"

definition work_send :: "nat \<Rightarrow> 'a state \<Rightarrow> 'a state option" where
  "work_send w s =
     (if w < length (workers s) then
        (case workers s ! w of
           Sending a r \<Rightarrow>
             if response a < length (calls s) then
               (let c = calls s ! response a in
                if length (res c) < res_cap c
                then Some (put_call (response a) (c\<lparr>res := res c @ [r]\<rparr>)
                             (s\<lparr>workers := (workers s)[w := Idle]\<rparr>))
                else None)
             else None
         | _ \<Rightarrow> None)
      else None)"

subsection \<open>The environment and the scheduler\<close>

text \<open>
  A goroutine calls \<^verbatim>\<open>p.Execute(ctx, actions)\<close>: a new call, before line 25; the
  length of a slice is an \<^verbatim>\<open>int\<close>, so below \<open>2 ^ 63\<close>. The owner
  of \<^verbatim>\<open>done\<close> closes it (once: closing a closed channel panics in the owner). The
  caller's context of a call ends with a reason; a context made by \<^verbatim>\<open>WithCancel\<close> that
  is still open ends with its parent, for the same reason. The other events are the steps
  of the calls (by number) and of the workers (by number); \<open>run\<close> runs a schedule.
\<close>

definition new_call :: "result \<Rightarrow> 'a list \<Rightarrow> 'a call" where
  "new_call st as =
     \<lparr>actions = as, parent = st, pc = AtEntry, derived = None, res = [], res_cap = 0,
      err = None, queued = 0, sent = [], got = []\<rparr>"

definition has_derived :: "'a call \<Rightarrow> bool" where
  "has_derived c = (case pc c of Enqueuing as \<Rightarrow> True | Collecting \<Rightarrow> True | _ \<Rightarrow> False)"

definition ctx_end :: "error \<Rightarrow> 'a call \<Rightarrow> 'a call option" where
  "ctx_end e c =
     (if parent c = None then
        Some (c\<lparr>parent := Some e,
                derived := (if has_derived c \<and> derived c = None then Some e else derived c)\<rparr>)
      else None)"

datatype 'a event =
    Call result "'a list"
  | CloseDone
  | CtxEnd nat error
  | Begin nat
  | Select nat choice
  | Receive nat
  | Return nat
  | Quit nat
  | Take nat
  | Finish nat
  | Send nat

definition on_call :: "nat \<Rightarrow> ('a call \<Rightarrow> 'a call option) \<Rightarrow> 'a state \<Rightarrow> 'a state option" where
  "on_call i f s =
     (if i < length (calls s) then
        (case f (calls s ! i) of None \<Rightarrow> None | Some c \<Rightarrow> Some (put_call i c s))
      else None)"

fun step :: "('a \<Rightarrow> result \<Rightarrow> result) \<Rightarrow> 'a event \<Rightarrow> 'a state \<Rightarrow> 'a state option" where
  "step exec (Call st as) s =
     (if length as < 2 ^ 63 then Some (s\<lparr>calls := calls s @ [new_call st as]\<rparr>) else None)"
| "step exec CloseDone s = (if p_done s then None else Some (s\<lparr>p_done := True\<rparr>))"
| "step exec (CtxEnd i e) s = on_call i (ctx_end e) s"
| "step exec (Begin i) s = on_call i Execute_begin s"
| "step exec (Select i ch) s =
     (if i < length (calls s) then
        (case Execute_select (p_done s) (length (p_in s) < p_in_cap s) i ch (calls s ! i) of
           None \<Rightarrow> None
         | Some (c, out) \<Rightarrow> Some ((put_call i c s)\<lparr>p_in := p_in s @ out\<rparr>))
      else None)"
| "step exec (Receive i) s = on_call i Execute_receive s"
| "step exec (Return i) s = on_call i Execute_return s"
| "step exec (Quit w) s = work_quit w s"
| "step exec (Take w) s = work_take w s"
| "step exec (Finish w) s = work_call exec w s"
| "step exec (Send w) s = work_send w s"

fun run :: "('a \<Rightarrow> result \<Rightarrow> result) \<Rightarrow> 'a event list \<Rightarrow> 'a state \<Rightarrow> 'a state option" where
  "run exec [] s = Some s"
| "run exec (e # es) s = (case step exec e s of None \<Rightarrow> None | Some s' \<Rightarrow> run exec es s')"

section \<open>Definitions for the properties\<close>

text \<open>
  The effective worker count, in the words of the specification: \<open>n\<close> when it is
  positive, the number of CPUs otherwise.
\<close>

definition effective :: "nat \<Rightarrow> int \<Rightarrow> nat" where
  "effective ncpu n = (if n > 0 then nat n else ncpu)"

text \<open>A worker is executing a unit of work while it is inside \<^verbatim>\<open>a.action.Execute\<close>.\<close>

definition executing :: "'a worker \<Rightarrow> bool" where
  "executing w = (case w of Busy a \<Rightarrow> True | _ \<Rightarrow> False)"

text \<open>For the examples: actions are numbers, and \<open>always_nil\<close> makes each of them succeed.\<close>

definition always_nil :: "nat \<Rightarrow> result \<Rightarrow> result" where
  "always_nil a st = None"

text \<open>
  What holds of one call in every state, from its own steps alone: the actions sent are a
  prefix of the batch, which has less than \<open>2 ^ 63\<close> elements (so that \<open>queued\<close> never
  wraps), every action sent is still counted in \<open>queued\<close> or has had a
  result received, the result channel has the capacity of the batch, and, place by place:
  nothing is sent or received before line 38; during the enqueue phase the actions sent
  and those still to visit make up the batch, no error is recorded and the derived
  context is in the state of the caller's; without a recorded error at line 53, or with
  nil returned, every action was sent and every result received was nil, and at line 53
  the derived context is still in the state of the caller's (\<^verbatim>\<open>cancel\<close> was not
  called).
\<close>

definition call_ok :: "'a call \<Rightarrow> bool" where
  "call_ok c =
     (prefix (sent c) (actions c)
      \<and> length (actions c) < 2 ^ 63
      \<and> queued c + length (got c) = length (sent c)
      \<and> (sent c \<noteq> [] \<longrightarrow> res_cap c = length (actions c))
      \<and> (pc c \<noteq> AtEntry \<longrightarrow> actions c \<noteq> [] \<longrightarrow> res_cap c = length (actions c))
      \<and> (case pc c of
            AtEntry \<Rightarrow> sent c = [] \<and> got c = [] \<and> derived c = None \<and> res_cap c = 0
          | Enqueuing rest \<Rightarrow>
              actions c = sent c @ rest \<and> rest \<noteq> [] \<and> got c = [] \<and> err c = None
              \<and> derived c = parent c
              \<and> res_cap c = length (actions c)
          | Collecting \<Rightarrow>
              res_cap c = length (actions c) \<and> actions c \<noteq> []
              \<and> (err c = None \<longrightarrow>
                    sent c = actions c \<and> (\<forall>r\<in>set (got c). r = None) \<and> derived c = parent c)
          | Returned r \<Rightarrow>
              (r = None \<longrightarrow> sent c = actions c \<and> queued c = 0 \<and> (\<forall>x\<in>set (got c). x = None))))"

text \<open>
  The ways one step of the pool can change a call: not at all, by the end of the caller's
  context, by one of the four steps of \<^verbatim>\<open>Execute\<close>, or by a worker's send on its
  result channel.
\<close>

inductive call_step :: "'a call \<Rightarrow> 'a call \<Rightarrow> bool" where
  stay: "call_step c c"
| ended: "ctx_end e c = Some c' \<Longrightarrow> call_step c c'"
| begun: "Execute_begin c = Some c' \<Longrightarrow> call_step c c'"
| selected: "Execute_select d room i ch c = Some (c', out) \<Longrightarrow> call_step c c'"
| received: "Execute_receive c = Some c' \<Longrightarrow> call_step c c'"
| returned: "Execute_return c = Some c' \<Longrightarrow> call_step c c'"
| delivered: "call_step c (c\<lparr>res := res c @ [r]\<rparr>)"

definition calls_ok :: "'a state \<Rightarrow> bool" where
  "calls_ok s = (\<forall>i<length (calls s). call_ok (calls s ! i))"

text \<open>
  Where the envelopes of call \<open>i\<close> are: the actions of those in the queue, of those a
  worker is executing, and of those executed (from the history), as multisets; and the
  values returned by those executed, those a worker is about to send among them.
\<close>

definition queued_acts :: "nat \<Rightarrow> 'a poolAction list \<Rightarrow> 'a multiset" where
  "queued_acts i q = mset (map action (filter (\<lambda>a. response a = i) q))"

definition busy_of :: "nat \<Rightarrow> 'a worker \<Rightarrow> 'a multiset" where
  "busy_of i w = (case w of Busy a \<Rightarrow> if response a = i then {#action a#} else {#} | _ \<Rightarrow> {#})"

definition busy_acts :: "nat \<Rightarrow> 'a worker list \<Rightarrow> 'a multiset" where
  "busy_acts i ws = sum_list (map (busy_of i) ws)"

definition sending_of :: "nat \<Rightarrow> 'a worker \<Rightarrow> result multiset" where
  "sending_of i w = (case w of Sending a r \<Rightarrow> if response a = i then {#r#} else {#} | _ \<Rightarrow> {#})"

definition sending_vals :: "nat \<Rightarrow> 'a worker list \<Rightarrow> result multiset" where
  "sending_vals i ws = sum_list (map (sending_of i) ws)"

definition ran_acts :: "nat \<Rightarrow> ('a poolAction \<times> result) list \<Rightarrow> 'a multiset" where
  "ran_acts i rs = mset (map (\<lambda>x. action (fst x)) (filter (\<lambda>x. response (fst x) = i) rs))"

definition ran_vals :: "nat \<Rightarrow> ('a poolAction \<times> result) list \<Rightarrow> result multiset" where
  "ran_vals i rs = mset (map snd (filter (\<lambda>x. response (fst x) = i) rs))"

text \<open>
  The account of call \<open>i\<close>: every action sent is in the queue, being executed, or
  executed; every value returned is about to be sent, in the buffer of the result channel,
  or received.
\<close>

definition acct :: "nat \<Rightarrow> 'a state \<Rightarrow> bool" where
  "acct i s =
     (mset (sent (calls s ! i)) =
        queued_acts i (p_in s) + busy_acts i (workers s) + ran_acts i (finished s)
      \<and> ran_vals i (finished s) =
        mset (res (calls s ! i)) + mset (got (calls s ! i)) + sending_vals i (workers s))"

definition accts :: "'a state \<Rightarrow> bool" where
  "accts s = (\<forall>i<length (calls s). acct i s)"

text \<open>
  The references of every envelope are to the context and the channel of one call, which
  exists.
\<close>

definition env_ok :: "nat \<Rightarrow> 'a poolAction \<Rightarrow> bool" where
  "env_ok n a = (ctx a < n \<and> response a < n \<and> ctx a = response a)"

fun held :: "'a worker \<Rightarrow> 'a poolAction list" where
  "held Idle = []"
| "held (Busy a) = [a]"
| "held (Sending a r) = [a]"
| "held Exited = []"

definition envs_ok :: "'a state \<Rightarrow> bool" where
  "envs_ok s =
     ((\<forall>a\<in>set (p_in s). env_ok (length (calls s)) a)
      \<and> (\<forall>w\<in>set (workers s). \<forall>a\<in>set (held w). env_ok (length (calls s)) a)
      \<and> (\<forall>x\<in>set (finished s). env_ok (length (calls s)) (fst x)))"

text \<open>
  A worker returns only on the shutdown signal; there are as many workers as the queue has
  places. \<open>pool_inv\<close> collects what holds in every state the pool reaches.
\<close>

definition exited_ok :: "'a state \<Rightarrow> bool" where
  "exited_ok s = (Exited \<in> set (workers s) \<longrightarrow> p_done s)"

definition pool_inv :: "'a state \<Rightarrow> bool" where
  "pool_inv s = (calls_ok s \<and> envs_ok s \<and> accts s \<and> exited_ok s
            \<and> length (workers s) = p_in_cap s)"

text \<open>
  The words of the specification for the value of the collection phase: the error recorded
  before it if there is one, else the first result that is not nil, else nil.
\<close>

definition first_error :: "result \<Rightarrow> result list \<Rightarrow> result" where
  "first_error e rs =
     (case e of
        Some x \<Rightarrow> Some x
      | None \<Rightarrow> (case find (\<lambda>r. r \<noteq> None) rs of None \<Rightarrow> None | Some r \<Rightarrow> r))"

text \<open>The number of envelopes worker \<open>w\<close> holds: one while it executes or sends, else none.\<close>

definition pending :: "nat \<Rightarrow> 'a state \<Rightarrow> nat" where
  "pending w s =
     (if w < length (workers s) then
        (case workers s ! w of Busy a \<Rightarrow> 1 | Sending a r \<Rightarrow> 1 | _ \<Rightarrow> 0)
      else 0)"

text \<open>How often an event occurs in a schedule.\<close>

definition count_event :: "'a event \<Rightarrow> 'a event list \<Rightarrow> nat" where
  "count_event e evs = length (filter (\<lambda>x. x = e) evs)"

text \<open>The number of values sent on the result channel of a call so far: those still in
  its buffer and those received from it.\<close>

definition results_sent :: "'a call \<Rightarrow> nat" where
  "results_sent c = length (res c) + length (got c)"

text \<open>Every worker has returned.\<close>

definition all_exited :: "'a state \<Rightarrow> bool" where
  "all_exited s = (\<forall>w\<in>set (workers s). w = Exited)"

text \<open>
  The events of the program itself, as opposed to those of its environment (a new call,
  the closing of \<^verbatim>\<open>done\<close>, the end of a caller's context).
\<close>

definition program :: "'a event \<Rightarrow> bool" where
  "program e = (case e of Call st as \<Rightarrow> False | CloseDone \<Rightarrow> False | CtxEnd i x \<Rightarrow> False
                | _ \<Rightarrow> True)"

text \<open>
  A bound on the number of steps the program can still take: every step of the program
  makes it smaller.
\<close>

definition call_left :: "'a call \<Rightarrow> nat" where
  "call_left c =
     (case pc c of
        AtEntry \<Rightarrow> 5 * length (actions c) + 3
      | Enqueuing rest \<Rightarrow> 5 * length rest + 2
      | Collecting \<Rightarrow> 1
      | Returned r \<Rightarrow> 0) + length (res c)"

definition worker_left :: "'a worker \<Rightarrow> nat" where
  "worker_left w = (case w of Idle \<Rightarrow> 1 | Busy a \<Rightarrow> 4 | Sending a r \<Rightarrow> 3 | Exited \<Rightarrow> 0)"

definition work_left :: "'a state \<Rightarrow> nat" where
  "work_left s =
     sum_list (map call_left (calls s)) + 4 * length (p_in s)
     + sum_list (map worker_left (workers s))"

text \<open>
  The conditions of an undisturbed batch: every action of the call returns nil when it is
  called with a context that has not ended (what it returns under a context that has ended
  is left open, so an action that gives up when its context is cancelled is one of them),
  the caller's context has not ended, and the pool has not been shut down.
\<close>

definition quiet :: "('a \<Rightarrow> result \<Rightarrow> result) \<Rightarrow> nat \<Rightarrow> 'a state \<Rightarrow> bool" where
  "quiet exec i s =
     ((\<forall>a\<in>set (actions (calls s ! i)). exec a None = None)
      \<and> parent (calls s ! i) = None \<and> \<not> p_done s)"

text \<open>
  In an undisturbed batch no error is recorded, the derived context is open while
  \<^verbatim>\<open>Execute\<close> runs (so every action of the batch is called with an open context),
  every value returned is nil, and \<^verbatim>\<open>Execute\<close> returns nil if it has returned.
\<close>

definition undisturbed :: "('a \<Rightarrow> result \<Rightarrow> result) \<Rightarrow> nat \<Rightarrow> 'a state \<Rightarrow> bool" where
  "undisturbed exec i s =
     (quiet exec i s \<longrightarrow>
        err (calls s ! i) = None
        \<and> (has_derived (calls s ! i) \<longrightarrow> derived (calls s ! i) = None)
        \<and> (\<forall>x\<in>#ran_vals i (finished s). x = None)
        \<and> (\<forall>r. pc (calls s ! i) = Returned r \<longrightarrow> r = None))"

definition undisturbed_all :: "('a \<Rightarrow> result \<Rightarrow> result) \<Rightarrow> 'a state \<Rightarrow> bool" where
  "undisturbed_all exec s = (\<forall>i<length (calls s). undisturbed exec i s)"

text \<open>The schedules and states of the examples.\<close>

definition demo_enqueued :: "nat event list" where
  "demo_enqueued = [Call None [7], Begin 0, Select 0 CaseSend]"

definition demo_empty :: "nat event list" where
  "demo_empty = [Call None [7], Begin 0, Select 0 CaseSend, Call (Some Canceled) []]"

definition demo_two_busy :: "nat event list" where
  "demo_two_busy =
     [Call None [1, 2, 3], Begin 0, Select 0 CaseSend, Select 0 CaseSend, Take 0, Take 1,
      Select 0 CaseSend]"

text \<open>
  Two actions for the examples: \<open>obeys_ctx\<close> returns \<^verbatim>\<open>ctx.Err()\<close>, so nil unless
  its context has ended; \<open>fails_on_3\<close> is the same except that action 3 always fails.
\<close>

definition obeys_ctx :: "nat \<Rightarrow> result \<Rightarrow> result" where
  "obeys_ctx a st = st"

definition fails_on_3 :: "nat \<Rightarrow> result \<Rightarrow> result" where
  "fails_on_3 a st = (if a = 3 then Some (Other 3) else st)"

definition demo_cancelled_in_queue :: "nat event list" where
  "demo_cancelled_in_queue = [Call None [7], Begin 0, Select 0 CaseSend, CtxEnd 0 Canceled]"

definition demo_cancelled_mid_enqueue :: "nat event list" where
  "demo_cancelled_mid_enqueue =
     [Call None [7, 8], Begin 0, Select 0 CaseSend, CtxEnd 0 Canceled, Take 0,
      Select 0 CaseSend]"

definition demo_two_rounds :: "nat event list" where
  "demo_two_rounds =
     [Call None [3, 5], Begin 0, Select 0 CaseSend, Take 0, Select 0 CaseSend, Finish 0, Send 0,
      Take 0, Finish 0]"

definition demo_closed_mid_enqueue :: "nat event list" where
  "demo_closed_mid_enqueue =
     [Call None [7, 8], Begin 0, Select 0 CaseSend, Take 0, Finish 0, Send 0, CloseDone]"







definition demo_closed_while_busy :: "nat event list" where
  "demo_closed_while_busy =
     [Call None [7, 8], Begin 0, Select 0 CaseSend, Take 0, Finish 0, CloseDone,
      Select 0 CaseDone]"

definition demo_stranded :: "nat event list" where
  "demo_stranded =
     [Call None [7, 8], Begin 0, Select 0 CaseSend, CloseDone, Select 0 CaseDone, Quit 0]"

definition stranded :: "nat state" where
  "stranded =
     \<lparr>p_done = True, p_in = [\<lparr>ctx = 0, action = 7, response = 0\<rparr>], p_in_cap = 1,
      workers = [Exited],
      calls = [\<lparr>actions = [7, 8], parent = None,
                pc = Returned (Some (New ''pool is closed'')), derived = Some Canceled,
                res = [], res_cap = 2, err = None, queued = 1, sent = [7], got = []\<rparr>],
      finished = []\<rparr>"

definition demo_cancelled_yet_sent :: "nat event list" where
  "demo_cancelled_yet_sent =
     [Call (Some Canceled) [7], Begin 0, Select 0 CaseSend, Take 0, Finish 0, Send 0,
      Receive 0, Return 0]"

definition cancelled_at_select :: "nat state" where
  "cancelled_at_select =
     \<lparr>p_done = False, p_in = [], p_in_cap = 1, workers = [Idle],
      calls = [\<lparr>actions = [7], parent = Some Canceled, pc = Enqueuing [7],
                derived = Some Canceled, res = [], res_cap = 1, err = None, queued = 0,
                sent = [], got = []\<rparr>],
      finished = []\<rparr>"

definition demo_one_queued :: "nat event list" where
  "demo_one_queued = [Call None [7, 8], Begin 0, Select 0 CaseSend]"

definition demo_to_the_end :: "nat event list" where
  "demo_to_the_end =
     [Take 0, Select 0 CaseSend, Finish 0, Send 0, Take 0, Finish 0, Send 0, Receive 0,
      Receive 0, Return 0]"

definition one_queued :: "nat state" where
  "one_queued =
     \<lparr>p_done = False, p_in = [\<lparr>ctx = 0, action = 7, response = 0\<rparr>], p_in_cap = 1,
      workers = [Idle],
      calls = [\<lparr>actions = [7, 8], parent = None, pc = Enqueuing [8], derived = None, res = [],
                res_cap = 2, err = None, queued = 1, sent = [7], got = []\<rparr>],
      finished = []\<rparr>"

definition both_done :: "nat state" where
  "both_done =
     \<lparr>p_done = False, p_in = [], p_in_cap = 1, workers = [Idle],
      calls = [\<lparr>actions = [7, 8], parent = None, pc = Returned None, derived = Some Canceled,
                res = [], res_cap = 2, err = None, queued = 0, sent = [7, 8],
                got = [None, None]\<rparr>],
      finished = [(\<lparr>ctx = 0, action = 7, response = 0\<rparr>, None),
                  (\<lparr>ctx = 0, action = 8, response = 0\<rparr>, None)]\<rparr>"

definition demo_cancelled_while_collecting :: "nat event list" where
  "demo_cancelled_while_collecting =
     [Call None [7], Begin 0, Select 0 CaseSend, CtxEnd 0 Canceled, Take 0, Finish 0, Send 0,
      Receive 0, Return 0]"

section \<open>The steps, the invariants, termination\<close>

lemmas model_defs = Pool_def on_call_def put_call_def new_call_def Execute_begin_def
  Execute_select_def Execute_receive_def Execute_return_def work_quit_def work_take_def
  work_call_def work_send_def cancel_def ctx_end_def has_derived_def

lemma spawn_eq: "spawn i n ws = ws @ replicate (nat (n - i)) Idle"
proof (induction i n ws rule: spawn.induct)
  case (1 i n ws)
  show ?case
  proof (cases "i < n")
    case True
    then have k: "nat (n - i) = Suc (nat (n - (i + 1)))" by simp
    have "spawn i n ws = spawn (i + 1) n (ws @ [Idle])"
      using True by (subst spawn.simps) simp
    also have "\<dots> = (ws @ [Idle]) @ replicate (nat (n - (i + 1))) Idle"
      using 1 True by simp
    finally show ?thesis by (simp add: k)
  next
    case False
    then show ?thesis by (subst spawn.simps) simp
  qed
qed

lemma replicate_numeral: "replicate (numeral k) x = x # replicate (pred_numeral k) x"
  by (simp add: numeral_eq_Suc)

lemmas run_simps = model_defs spawn_eq replicate_numeral Let_def

lemma workers_Pool: "workers (Pool ncpu n d) = replicate (effective ncpu n) Idle"
  by (simp add: Pool_def Let_def spawn_eq effective_def)

lemma p_in_cap_Pool: "p_in_cap (Pool ncpu n d) = effective ncpu n"
  by (simp add: Pool_def Let_def effective_def)

lemma on_callE:
  assumes "on_call i f s = Some s'"
  obtains c' where "i < length (calls s)" "f (calls s ! i) = Some c'" "s' = put_call i c' s"
  using assms by (simp add: on_call_def split: if_splits option.splits)

lemma work_quitE:
  assumes "work_quit w s = Some s'"
  obtains "w < length (workers s)" "workers s ! w = Idle" "p_done s"
    "s' = s\<lparr>workers := (workers s)[w := Exited]\<rparr>"
  using assms by (simp add: work_quit_def split: if_splits worker.splits)

lemma work_takeE:
  assumes "work_take w s = Some s'"
  obtains a q where "w < length (workers s)" "workers s ! w = Idle" "p_in s = a # q"
    "s' = s\<lparr>p_in := q, workers := (workers s)[w := Busy a]\<rparr>"
  using assms by (simp add: work_take_def split: if_splits worker.splits list.splits)

lemma work_callE:
  assumes "work_call exec w s = Some s'"
  obtains a where "w < length (workers s)" "workers s ! w = Busy a" "ctx a < length (calls s)"
    "s' = s\<lparr>workers := (workers s)[w := Sending a (exec (action a) (derived (calls s ! ctx a)))],
               finished := finished s @ [(a, exec (action a) (derived (calls s ! ctx a)))]\<rparr>"
  using assms by (simp add: work_call_def Let_def split: if_splits worker.splits)

lemma work_sendE:
  assumes "work_send w s = Some s'"
  obtains a r where "w < length (workers s)" "workers s ! w = Sending a r"
    "response a < length (calls s)"
    "length (res (calls s ! response a)) < res_cap (calls s ! response a)"
    "s' = put_call (response a) ((calls s ! response a)\<lparr>res := res (calls s ! response a) @ [r]\<rparr>)
            (s\<lparr>workers := (workers s)[w := Idle]\<rparr>)"
  using assms by (simp add: work_send_def Let_def split: if_splits worker.splits)

lemma selectE:
  assumes "step exec (Select i ch) s = Some s'"
  obtains c' out where "i < length (calls s)"
    "Execute_select (p_done s) (length (p_in s) < p_in_cap s) i ch (calls s ! i) = Some (c', out)"
    "s' = (put_call i c' s)\<lparr>p_in := p_in s @ out\<rparr>"
  using assms by (simp split: if_splits option.splits prod.splits)

lemma stepE [consumes 1, case_names Call CloseDone CtxEnd Begin Select Receive Return Quit Take Finish Send]:
  assumes "step exec e s = Some s'"
  obtains
    st as where "e = Call st as" "s' = s\<lparr>calls := calls s @ [new_call st as]\<rparr>"
      "length as < 2 ^ 63"
  | "e = CloseDone" "\<not> p_done s" "s' = s\<lparr>p_done := True\<rparr>"
  | i er c' where "e = CtxEnd i er" "i < length (calls s)" "ctx_end er (calls s ! i) = Some c'"
      "s' = put_call i c' s"
  | i c' where "e = Begin i" "i < length (calls s)" "Execute_begin (calls s ! i) = Some c'"
      "s' = put_call i c' s"
  | i ch c' out where "e = Select i ch" "i < length (calls s)"
      "Execute_select (p_done s) (length (p_in s) < p_in_cap s) i ch (calls s ! i) = Some (c', out)"
      "s' = (put_call i c' s)\<lparr>p_in := p_in s @ out\<rparr>"
  | i c' where "e = Receive i" "i < length (calls s)" "Execute_receive (calls s ! i) = Some c'"
      "s' = put_call i c' s"
  | i c' where "e = Return i" "i < length (calls s)" "Execute_return (calls s ! i) = Some c'"
      "s' = put_call i c' s"
  | w where "e = Quit w" "w < length (workers s)" "workers s ! w = Idle" "p_done s"
      "s' = s\<lparr>workers := (workers s)[w := Exited]\<rparr>"
  | w a q where "e = Take w" "w < length (workers s)" "workers s ! w = Idle" "p_in s = a # q"
      "s' = s\<lparr>p_in := q, workers := (workers s)[w := Busy a]\<rparr>"
  | w a where "e = Finish w" "w < length (workers s)" "workers s ! w = Busy a"
      "ctx a < length (calls s)"
      "s' = s\<lparr>workers := (workers s)[w := Sending a (exec (action a) (derived (calls s ! ctx a)))],
                 finished := finished s @ [(a, exec (action a) (derived (calls s ! ctx a)))]\<rparr>"
  | w a r where "e = Send w" "w < length (workers s)" "workers s ! w = Sending a r"
      "response a < length (calls s)"
      "length (res (calls s ! response a)) < res_cap (calls s ! response a)"
      "s' = put_call (response a)
              ((calls s ! response a)\<lparr>res := res (calls s ! response a) @ [r]\<rparr>)
              (s\<lparr>workers := (workers s)[w := Idle]\<rparr>)"
proof (cases e)
  case (Call st as)
  with assms that(1) show ?thesis by (simp split: if_splits)
next
  case CloseDone
  with assms that(2) show ?thesis by (simp split: if_splits)
next
  case (CtxEnd i er)
  with assms that(3) show ?thesis by (auto elim: on_callE)
next
  case (Begin i)
  with assms that(4) show ?thesis by (auto elim: on_callE)
next
  case (Select i ch)
  with assms that(5) show ?thesis by (auto split: if_splits option.splits)
next
  case (Receive i)
  with assms that(6) show ?thesis by (auto elim: on_callE)
next
  case (Return i)
  with assms that(7) show ?thesis by (auto elim: on_callE)
next
  case (Quit w)
  with assms that(8) show ?thesis by (auto elim: work_quitE)
next
  case (Take w)
  with assms that(9) show ?thesis by (auto elim: work_takeE)
next
  case (Finish w)
  with assms that(10) show ?thesis by (auto elim: work_callE)
next
  case (Send w)
  with assms that(11) show ?thesis by (auto elim: work_sendE)
qed

lemma step_length_workers: "step exec e s = Some s' \<Longrightarrow> length (workers s') = length (workers s)"
  by (erule stepE) (simp_all add: put_call_def)

lemma step_p_in_cap: "step exec e s = Some s' \<Longrightarrow> p_in_cap s' = p_in_cap s"
  by (erule stepE) (simp_all add: put_call_def)

lemma run_length_workers: "run exec evs s = Some s' \<Longrightarrow> length (workers s') = length (workers s)"
  by (induction evs arbitrary: s) (auto split: option.splits dest: step_length_workers)

lemma run_p_in_cap: "run exec evs s = Some s' \<Longrightarrow> p_in_cap s' = p_in_cap s"
  by (induction evs arbitrary: s) (auto split: option.splits dest: step_p_in_cap)

lemma put_call_fields [simp]:
  "calls (put_call i c s) = (calls s)[i := c]" "p_in (put_call i c s) = p_in s"
  "p_in_cap (put_call i c s) = p_in_cap s" "workers (put_call i c s) = workers s"
  "p_done (put_call i c s) = p_done s" "finished (put_call i c s) = finished s"
  by (simp_all add: put_call_def)

lemma cancel_fields [simp]:
  "actions (cancel c) = actions c" "parent (cancel c) = parent c" "pc (cancel c) = pc c"
  "res (cancel c) = res c" "res_cap (cancel c) = res_cap c" "err (cancel c) = err c"
  "queued (cancel c) = queued c" "sent (cancel c) = sent c" "got (cancel c) = got c"
  by (simp_all add: cancel_def)

lemma derived_cancel:
  "derived (cancel c) = (case derived c of None \<Rightarrow> Some Canceled | Some e \<Rightarrow> Some e)"
  by (simp add: cancel_def split: option.splits)

lemma cancel_cancel [simp]: "cancel (cancel c) = cancel c"
  by (simp add: cancel_def)

lemma Execute_beginE:
  assumes "Execute_begin c = Some c'"
  obtains "pc c = AtEntry" "actions c = []" "c' = c\<lparr>pc := Returned None\<rparr>"
  | "pc c = AtEntry" "actions c \<noteq> []"
    "c' = c\<lparr>derived := parent c, res := [], res_cap := length (actions c), err := None,
             queued := 0, pc := Enqueuing (actions c)\<rparr>"
  using assms by (simp add: Execute_begin_def Let_def split: pc.splits if_splits)

lemma Execute_selectE:
  assumes "Execute_select d room i ch c = Some (c', out)"
  obtains a rest where "pc c = Enqueuing (a # rest)" "ch = CaseDone" "d"
    "c' = (cancel c)\<lparr>pc := Returned (Some (New ''pool is closed''))\<rparr>" "out = []"
  | a rest where "pc c = Enqueuing (a # rest)" "ch = CaseCtx" "derived c \<noteq> None"
    "c' = c\<lparr>err := derived c, pc := Collecting\<rparr>" "out = []"
  | a rest where "pc c = Enqueuing (a # rest)" "ch = CaseSend" "room"
    "c' = c\<lparr>queued := (queued c + 1) mod 2 ^ 64, sent := sent c @ [a],
             pc := (if rest = [] then Collecting else Enqueuing rest)\<rparr>"
    "out = [\<lparr>ctx = i, action = a, response = i\<rparr>]"
  using assms
  by (simp add: Execute_select_def split: pc.splits list.splits choice.splits if_splits)

lemma Execute_receiveE:
  assumes "Execute_receive c = Some c'"
  obtains r rs where "pc c = Collecting" "0 < queued c" "res c = r # rs"
    "c' = (if r \<noteq> None \<and> err c = None
           then cancel (c\<lparr>res := rs, got := got c @ [r], err := r\<rparr>)
           else c\<lparr>res := rs, got := got c @ [r]\<rparr>)\<lparr>queued := queued c - 1\<rparr>"
  using assms
  by (simp add: Execute_receive_def Let_def split: pc.splits list.splits if_splits)

lemma Execute_returnE:
  assumes "Execute_return c = Some c'"
  obtains "pc c = Collecting" "queued c = 0" "c' = (cancel c)\<lparr>pc := Returned (err c)\<rparr>"
  using assms by (simp add: Execute_return_def split: pc.splits if_splits)

lemma ctx_endE:
  assumes "ctx_end e c = Some c'"
  obtains "parent c = None"
    "c' = c\<lparr>parent := Some e,
             derived := (if has_derived c \<and> derived c = None then Some e else derived c)\<rparr>"
  using assms by (simp add: ctx_end_def split: if_splits)

lemma call_ok_new: "length as < 2 ^ 63 \<Longrightarrow> call_ok (new_call st as)"
  by (simp add: call_ok_def new_call_def)

lemma call_ok_step:
  assumes "call_step c c'" "call_ok c"
  shows "call_ok c'"
  using assms
proof (cases rule: call_step.cases)
  case stay
  with assms show ?thesis by simp
next
  case (ended e)
  with assms show ?thesis
    by (elim ctx_endE) (auto simp: call_ok_def has_derived_def split: pc.splits)
next
  case begun
  with assms show ?thesis
    by (elim Execute_beginE) (auto simp: call_ok_def)
next
  case (selected d room i ch out)
  from selected show ?thesis
  proof (cases rule: Execute_selectE)
    case (1 a rest)
    with assms(2) show ?thesis by (auto simp: call_ok_def)
  next
    case (2 a rest)
    with assms(2) show ?thesis by (auto simp: call_ok_def)
  next
    case (3 a rest)
    from assms(2) 3(1) have "queued c = length (sent c)"
      "length (sent c) + length (a # rest) = length (actions c)" "length (actions c) < 2 ^ 63"
      by (auto simp: call_ok_def)
    then have "(queued c + 1) mod 2 ^ 64 = queued c + 1" by simp
    with 3 assms(2) show ?thesis by (auto simp: call_ok_def)
  qed
next
  case received
  from received show ?thesis
  proof (cases rule: Execute_receiveE)
    case (1 r rs)
    with assms(2) show ?thesis by (auto simp: call_ok_def)
  qed
next
  case returned
  from returned show ?thesis
  proof (cases rule: Execute_returnE)
    case 1
    with assms(2) show ?thesis by (auto simp: call_ok_def)
  qed
next
  case (delivered r)
  with assms show ?thesis by (simp add: call_ok_def split: pc.splits)
qed

lemma step_call_step:
  assumes "step exec e s = Some s'" "i < length (calls s)"
  shows "i < length (calls s') \<and> call_step (calls s ! i) (calls s' ! i)"
  using assms
proof (cases rule: stepE)
  case (Call st as)
  with assms(2) show ?thesis by (simp add: nth_append call_step.stay)
next
  case CloseDone
  with assms(2) show ?thesis by (simp add: call_step.stay)
next
  case (CtxEnd j er c')
  with assms(2) show ?thesis
    by (cases "i = j") (auto simp: put_call_def intro: call_step.intros)
next
  case (Begin j c')
  with assms(2) show ?thesis
    by (cases "i = j") (auto simp: put_call_def intro: call_step.intros)
next
  case (Select j ch c' out)
  with assms(2) show ?thesis
    by (cases "i = j") (auto simp: put_call_def intro: call_step.intros)
next
  case (Receive j c')
  with assms(2) show ?thesis
    by (cases "i = j") (auto simp: put_call_def intro: call_step.intros)
next
  case (Return j c')
  with assms(2) show ?thesis
    by (cases "i = j") (auto simp: put_call_def intro: call_step.intros)
next
  case (Quit w)
  with assms(2) show ?thesis by (simp add: call_step.stay)
next
  case (Take w a q)
  with assms(2) show ?thesis by (simp add: call_step.stay)
next
  case (Finish w a)
  with assms(2) show ?thesis by (simp add: call_step.stay)
next
  case (Send w a r)
  with assms(2) show ?thesis
    by (cases "i = response a") (auto simp: put_call_def intro: call_step.intros)
qed

lemma step_new_call:
  assumes "step exec e s = Some s'" "i < length (calls s')" "\<not> i < length (calls s)"
  shows "\<exists>st as. e = Call st as \<and> i = length (calls s) \<and> calls s' ! i = new_call st as
    \<and> length as < 2 ^ 63"
  using assms by (cases rule: stepE) (auto simp: put_call_def nth_append)

lemma calls_ok_step:
  assumes "step exec e s = Some s'" "calls_ok s"
  shows "calls_ok s'"
  unfolding calls_ok_def
proof (intro allI impI)
  fix i assume i: "i < length (calls s')"
  show "call_ok (calls s' ! i)"
  proof (cases "i < length (calls s)")
    case True
    with assms show ?thesis
      using step_call_step [OF assms(1) True] call_ok_step by (auto simp: calls_ok_def)
  next
    case False
    with step_new_call [OF assms(1) i] show ?thesis by (auto simp: call_ok_new)
  qed
qed

lemma sum_list_map_update:
  fixes f :: "'b \<Rightarrow> 'c::comm_monoid_add"
  shows "w < length ws \<Longrightarrow> sum_list (map f (ws[w := x])) + f (ws ! w) = sum_list (map f ws) + f x"
  by (induction ws arbitrary: w) (auto simp: ac_simps split: nat.splits)

lemma sum_list_map_zero:
  fixes f :: "'b \<Rightarrow> 'c::comm_monoid_add"
  shows "(\<And>x. x \<in> set xs \<Longrightarrow> f x = 0) \<Longrightarrow> sum_list (map f xs) = 0"
  by (induction xs) auto

lemma busy_acts_update:
  "w < length ws \<Longrightarrow> busy_acts i (ws[w := x]) + busy_of i (ws ! w) = busy_acts i ws + busy_of i x"
  unfolding busy_acts_def by (rule sum_list_map_update)

lemma sending_vals_update:
  "w < length ws \<Longrightarrow>
     sending_vals i (ws[w := x]) + sending_of i (ws ! w) = sending_vals i ws + sending_of i x"
  unfolding sending_vals_def by (rule sum_list_map_update)

lemma env_ok_mono: "env_ok n a \<Longrightarrow> n \<le> m \<Longrightarrow> env_ok m a"
  by (simp add: env_ok_def)

lemma step_length_calls: "step exec e s = Some s' \<Longrightarrow> length (calls s) \<le> length (calls s')"
  by (erule stepE) (simp_all add: put_call_def)

lemma envs_ok_step:
  assumes "step exec e s = Some s'" "envs_ok s"
  shows "envs_ok s'"
  using assms
proof (cases rule: stepE)
  case (Call st as)
  with assms(2) show ?thesis by (fastforce simp: envs_ok_def env_ok_def intro: less_SucI)
next
  case CloseDone
  with assms(2) show ?thesis by (simp add: envs_ok_def)
next
  case (CtxEnd i er c')
  with assms(2) show ?thesis by (simp add: envs_ok_def put_call_def)
next
  case (Begin i c')
  with assms(2) show ?thesis by (simp add: envs_ok_def put_call_def)
next
  case (Select i ch c' out)
  from Select(3) have "\<forall>a\<in>set out. env_ok (length (calls s)) a"
    using Select(2) by (cases rule: Execute_selectE) (simp_all add: env_ok_def)
  with Select(4) assms(2) show ?thesis by (auto simp: envs_ok_def put_call_def)
next
  case (Receive i c')
  with assms(2) show ?thesis by (simp add: envs_ok_def put_call_def)
next
  case (Return i c')
  with assms(2) show ?thesis by (simp add: envs_ok_def put_call_def)
next
  case (Quit w)
  with assms(2) show ?thesis
    by (auto simp: envs_ok_def dest!: set_update_subset_insert [THEN subsetD])
next
  case (Take w a q)
  with assms(2) show ?thesis
    by (auto simp: envs_ok_def dest!: set_update_subset_insert [THEN subsetD])
next
  case (Finish w a)
  have "Busy a \<in> set (workers s)" using Finish(2,3) by (metis nth_mem)
  with assms(2) have "env_ok (length (calls s)) a" by (force simp: envs_ok_def)
  with Finish assms(2) show ?thesis
    by (auto simp: envs_ok_def dest!: set_update_subset_insert [THEN subsetD])
next
  case (Send w a r)
  with assms(2) show ?thesis
    by (auto simp: envs_ok_def put_call_def dest!: set_update_subset_insert [THEN subsetD])
qed

lemma no_envelopes:
  assumes "envs_ok s" "length (calls s) \<le> n"
  shows "queued_acts n (p_in s) = {#}" "busy_acts n (workers s) = {#}"
    "ran_acts n (finished s) = {#}" "ran_vals n (finished s) = {#}" "sending_vals n (workers s) = {#}"
proof -
  have w: "busy_of n w = {#} \<and> sending_of n w = {#}" if "w \<in> set (workers s)" for w
    using assms that by (cases w) (auto simp: envs_ok_def env_ok_def busy_of_def sending_of_def)
  have "filter (\<lambda>a. response a = n) (p_in s) = []"
    using assms by (auto simp: envs_ok_def env_ok_def filter_empty_conv)
  then show "queued_acts n (p_in s) = {#}" by (simp add: queued_acts_def)
  have "filter (\<lambda>x. response (fst x) = n) (finished s) = []"
    using assms by (auto simp: envs_ok_def env_ok_def filter_empty_conv)
  then show "ran_acts n (finished s) = {#}" "ran_vals n (finished s) = {#}"
    by (simp_all add: ran_acts_def ran_vals_def)
  show "busy_acts n (workers s) = {#}"
    unfolding busy_acts_def by (rule sum_list_map_zero) (simp add: w)
  show "sending_vals n (workers s) = {#}"
    unfolding sending_vals_def by (rule sum_list_map_zero) (simp add: w)
qed

lemma ran_vals_empty: "ran_acts i rs = {#} \<Longrightarrow> ran_vals i rs = {#}"
  by (simp add: ran_acts_def ran_vals_def)

lemma acct_eqI:
  assumes "acct i s" "sent (calls s' ! i) = sent (calls s ! i)"
    "res (calls s' ! i) = res (calls s ! i)" "got (calls s' ! i) = got (calls s ! i)"
    "p_in s' = p_in s" "workers s' = workers s" "finished s' = finished s"
  shows "acct i s'"
  using assms by (simp add: acct_def)

lemma acct_put_call:
  assumes "acct i s" "i < length (calls s)"
    "i = j \<Longrightarrow> sent c' = sent (calls s ! j) \<and> res c' = res (calls s ! j) \<and> got c' = got (calls s ! j)"
  shows "acct i (put_call j c' s)"
  using assms by (cases "i = j") (auto intro: acct_eqI simp: put_call_def)

lemma at_entry_no_results:
  assumes "acct i s" "call_ok (calls s ! i)" "pc (calls s ! i) = AtEntry"
  shows "res (calls s ! i) = []"
proof -
  from assms(2,3) have "sent (calls s ! i) = []" "got (calls s ! i) = []"
    by (simp_all add: call_ok_def)
  with assms(1) have "ran_acts i (finished s) = {#}" by (simp add: acct_def)
  then have "ran_vals i (finished s) = {#}" by (rule ran_vals_empty)
  with assms(1) show ?thesis by (simp add: acct_def)
qed

lemma accts_step:
  assumes st: "step exec e s = Some s'" and ok: "calls_ok s" and env: "envs_ok s"
    and acc: "accts s"
  shows "accts s'"
  unfolding accts_def
proof (intro allI impI)
  fix i assume i': "i < length (calls s')"
  have old: "acct i s" if "i < length (calls s)"
    using acc that by (simp add: accts_def)
  have cok: "call_ok (calls s ! i)" if "i < length (calls s)"
    using ok that by (simp add: calls_ok_def)
  from st show "acct i s'"
  proof (cases rule: stepE)
    case (Call st as)
    show ?thesis
    proof (cases "i < length (calls s)")
      case True
      with old Call show ?thesis by (simp add: acct_def nth_append)
    next
      case False
      with i' Call have "i = length (calls s)" by simp
      with Call no_envelopes [OF env, of i] show ?thesis by (simp add: acct_def new_call_def)
    qed
  next
    case CloseDone
    with i' old show ?thesis by (simp add: acct_def)
  next
    case (CtxEnd j er c')
    from CtxEnd(3) have "sent c' = sent (calls s ! j) \<and> res c' = res (calls s ! j)
        \<and> got c' = got (calls s ! j)"
      by (cases rule: ctx_endE) simp
    with CtxEnd i' old show ?thesis by (simp add: acct_put_call)
  next
    case (Begin j c')
    from Begin(3) have "sent c' = sent (calls s ! j) \<and> res c' = res (calls s ! j)
        \<and> got c' = got (calls s ! j)"
      using at_entry_no_results [of j s] acc ok Begin(2)
      by (cases rule: Execute_beginE) (auto simp: accts_def calls_ok_def)
    with Begin i' old show ?thesis by (simp add: acct_put_call)
  next
    case (Select j ch c' out)
    have i: "i < length (calls s)" using Select i' by simp
    from Select(3) show ?thesis
    proof (cases rule: Execute_selectE)
      case (1 a rest)
      with Select i old [OF i] show ?thesis
        by (cases "i = j") (simp_all add: acct_def)
    next
      case (2 a rest)
      with Select i old [OF i] show ?thesis
        by (cases "i = j") (simp_all add: acct_def)
    next
      case (3 a rest)
      with Select i old [OF i] show ?thesis
        by (cases "i = j") (simp_all add: acct_def queued_acts_def)
    qed
  next
    case (Receive j c')
    have i: "i < length (calls s)" using Receive i' by simp
    from Receive(3) show ?thesis
    proof (cases rule: Execute_receiveE)
      case (1 r rs)
      with Receive i old [OF i] show ?thesis
        by (cases "i = j") (simp_all add: acct_def)
    qed
  next
    case (Return j c')
    from Return(3) have "sent c' = sent (calls s ! j) \<and> res c' = res (calls s ! j)
        \<and> got c' = got (calls s ! j)"
      by (cases rule: Execute_returnE) simp
    with Return i' old show ?thesis by (simp add: acct_put_call)
  next
    case (Quit w)
    have i: "i < length (calls s)" using Quit i' by simp
    from busy_acts_update [OF Quit(2), of i Exited] sending_vals_update [OF Quit(2), of i Exited]
    show ?thesis using Quit old [OF i]
      by (simp add: acct_def busy_of_def sending_of_def)
  next
    case (Take w a q)
    have i: "i < length (calls s)" using Take i' by simp
    from busy_acts_update [OF Take(2), of i "Busy a"]
      sending_vals_update [OF Take(2), of i "Busy a"]
    show ?thesis using Take old [OF i]
      by (simp add: acct_def busy_of_def sending_of_def queued_acts_def ac_simps)
  next
    case (Finish w a)
    have i: "i < length (calls s)" using Finish i' by simp
    let ?r = "exec (action a) (derived (calls s ! ctx a))"
    from busy_acts_update [OF Finish(2), of i "Sending a ?r"]
      sending_vals_update [OF Finish(2), of i "Sending a ?r"]
    have "busy_acts i (workers s) = busy_acts i (workers s') + busy_of i (Busy a)"
      "sending_vals i (workers s') = sending_vals i (workers s) + sending_of i (Sending a ?r)"
      using Finish by (simp_all add: busy_of_def sending_of_def)
    then show ?thesis using Finish old [OF i]
      by (simp add: acct_def busy_of_def sending_of_def ran_acts_def ran_vals_def)
  next
    case (Send w a r)
    have i: "i < length (calls s)" using Send i' by simp
    from busy_acts_update [OF Send(2), of i Idle] sending_vals_update [OF Send(2), of i Idle]
    have "busy_acts i (workers s') = busy_acts i (workers s)"
      "sending_vals i (workers s) = sending_vals i (workers s') + sending_of i (Sending a r)"
      using Send by (simp_all add: busy_of_def sending_of_def)
    then show ?thesis using Send old [OF i] i
      by (cases "i = response a") (simp_all add: acct_def sending_of_def)
  qed
qed

lemma exited_ok_step:
  assumes "step exec e s = Some s'" "exited_ok s"
  shows "exited_ok s'"
  using assms
  by (cases rule: stepE)
    (auto simp: exited_ok_def dest!: set_update_subset_insert [THEN subsetD])

lemma inv_Pool: "pool_inv (Pool ncpu n d)"
  by (simp add: pool_inv_def calls_ok_def envs_ok_def accts_def exited_ok_def
      workers_Pool p_in_cap_Pool)
    (simp add: Pool_def Let_def)

lemma inv_step:
  assumes "step exec e s = Some s'" "pool_inv s"
  shows "pool_inv s'"
  using assms calls_ok_step [OF assms(1)] envs_ok_step [OF assms(1)] accts_step [OF assms(1)]
    exited_ok_step [OF assms(1)] step_length_workers [OF assms(1)] step_p_in_cap [OF assms(1)]
  by (simp add: pool_inv_def)

lemma inv_run: "run exec evs s = Some s' \<Longrightarrow> pool_inv s \<Longrightarrow> pool_inv s'"
  by (induction evs arbitrary: s) (auto split: option.splits dest: inv_step)

lemma reach_inv: "run exec evs (Pool ncpu n d) = Some s \<Longrightarrow> pool_inv s"
  by (erule inv_run) (rule inv_Pool)

lemma size_ran_vals: "size (ran_vals i rs) = size (ran_acts i rs)"
  by (simp add: ran_vals_def ran_acts_def)

lemma sending_vals_nth:
  assumes "w < length ws"
  shows "sending_vals i ws = sending_vals i (ws[w := Idle]) + sending_of i (ws ! w)"
  using sending_vals_update [OF assms, of i Idle] by (simp add: sending_of_def)

lemma busy_acts_nth:
  assumes "w < length ws"
  shows "busy_acts i ws = busy_acts i (ws[w := Idle]) + busy_of i (ws ! w)"
  using busy_acts_update [OF assms, of i Idle] by (simp add: busy_of_def)

lemma held_env_ok:
  assumes "pool_inv s" "w < length (workers s)" "a \<in> set (held (workers s ! w))"
  shows "ctx a < length (calls s)" "response a < length (calls s)" "ctx a = response a"
proof -
  have "workers s ! w \<in> set (workers s)" using assms(2) by simp
  with assms(1,3) have "env_ok (length (calls s)) a"
    unfolding pool_inv_def envs_ok_def by blast
  then show "ctx a < length (calls s)" "response a < length (calls s)" "ctx a = response a"
    by (simp_all add: env_ok_def)
qed

lemma results_bound:
  assumes "pool_inv s" "i < length (calls s)"
  shows "length (res (calls s ! i)) + length (got (calls s ! i)) + size (sending_vals i (workers s))
           + size (busy_acts i (workers s)) + size (queued_acts i (p_in s))
         = length (sent (calls s ! i))"
proof -
  from assms have a: "acct i s" by (simp add: pool_inv_def accts_def)
  then have "length (sent (calls s ! i)) =
      size (queued_acts i (p_in s)) + size (busy_acts i (workers s)) + size (ran_acts i (finished s))"
    unfolding acct_def by (metis size_mset size_union)
  moreover from a have "size (ran_vals i (finished s)) =
      length (res (calls s ! i)) + length (got (calls s ! i)) + size (sending_vals i (workers s))"
    unfolding acct_def by (metis size_mset size_union)
  ultimately show ?thesis by (simp add: size_ran_vals)
qed

lemma sent_bound:
  assumes "pool_inv s" "i < length (calls s)"
  shows "length (sent (calls s ! i)) \<le> length (actions (calls s ! i))"
    "sent (calls s ! i) \<noteq> [] \<Longrightarrow> res_cap (calls s ! i) = length (actions (calls s ! i))"
proof -
  from assms have c: "call_ok (calls s ! i)" by (simp add: pool_inv_def calls_ok_def)
  then have "prefix (sent (calls s ! i)) (actions (calls s ! i))" by (simp add: call_ok_def)
  then show "length (sent (calls s ! i)) \<le> length (actions (calls s ! i))"
    by (rule prefix_length_le)
  show "res_cap (calls s ! i) = length (actions (calls s ! i))" if "sent (calls s ! i) \<noteq> []"
    using c that by (simp add: call_ok_def)
qed

lemma send_ready:
  assumes "pool_inv s" "w < length (workers s)" "workers s ! w = Sending a r"
  shows "response a < length (calls s)"
    "length (res (calls s ! response a)) < res_cap (calls s ! response a)"
proof -
  show i: "response a < length (calls s)"
    using held_env_ok(2) [OF assms(1,2), of a] assms(3) by simp
  let ?i = "response a"
  have "sending_vals ?i (workers s) = sending_vals ?i ((workers s)[w := Idle]) + {#r#}"
    using sending_vals_nth [OF assms(2), of ?i] assms(3) by (simp add: sending_of_def)
  then have "1 \<le> size (sending_vals ?i (workers s))" by simp
  with results_bound [OF assms(1) i]
  have lt: "length (res (calls s ! ?i)) < length (sent (calls s ! ?i))" by linarith
  then have "sent (calls s ! ?i) \<noteq> []" by auto
  with sent_bound [OF assms(1) i] lt
  show "length (res (calls s ! ?i)) < res_cap (calls s ! ?i)" by simp
qed

lemma step_Send_ready:
  assumes "pool_inv s" "w < length (workers s)" "workers s ! w = Sending a r"
  shows "step exec (Send w) s =
     Some (put_call (response a)
            ((calls s ! response a)\<lparr>res := res (calls s ! response a) @ [r]\<rparr>)
            (s\<lparr>workers := (workers s)[w := Idle]\<rparr>))"
  using assms send_ready [OF assms] by (simp add: work_send_def Let_def)

lemma step_Finish_ready:
  assumes "pool_inv s" "w < length (workers s)" "workers s ! w = Busy a"
  shows "step exec (Finish w) s =
     Some (s\<lparr>workers := (workers s)[w := Sending a (exec (action a) (derived (calls s ! ctx a)))],
             finished := finished s @ [(a, exec (action a) (derived (calls s ! ctx a)))]\<rparr>)"
  using assms held_env_ok(1) [OF assms(1,2), of a] by (simp add: work_call_def Let_def)

lemma first_error_Nil [simp]: "first_error e [] = e"
  by (simp add: first_error_def split: option.splits)

lemma find_app:
  "find P (xs @ ys) = (case find P xs of None \<Rightarrow> find P ys | Some x \<Rightarrow> Some x)"
  by (induction xs) auto

lemma find_sat: "find P xs = Some x \<Longrightarrow> P x"
  by (induction xs) (auto split: if_splits)

lemma first_error_snoc:
  "first_error e (g @ [r]) = (case first_error e g of Some x \<Rightarrow> Some x | None \<Rightarrow> r)"
  by (cases r) (auto simp: first_error_def find_app split: option.splits dest: find_sat)

lemma first_error_append:
  "first_error (first_error e g) h = first_error e (g @ h)"
  by (auto simp: first_error_def find_app split: option.splits dest: find_sat)

lemma run_append:
  "run exec (es @ fs) s = (case run exec es s of None \<Rightarrow> None | Some s' \<Rightarrow> run exec fs s')"
  by (induction es arbitrary: s) (auto split: option.splits)

lemma run_call_steps:
  assumes "run exec evs s = Some s'" "i < length (calls s)"
  shows "i < length (calls s') \<and> call_step\<^sup>*\<^sup>* (calls s ! i) (calls s' ! i)"
  using assms
proof (induction evs arbitrary: s)
  case Nil
  then show ?case by simp
next
  case (Cons e es)
  from Cons.prems(1) obtain s1 where e: "step exec e s = Some s1" and es: "run exec es s1 = Some s'"
    by (auto split: option.splits)
  from step_call_step [OF e Cons.prems(2)]
  have 1: "i < length (calls s1)" "call_step (calls s ! i) (calls s1 ! i)" by simp_all
  from Cons.IH [OF es 1(1)] 1(2) show ?case
    by (auto intro: converse_rtranclp_into_rtranclp)
qed

lemma returned_frozen_step:
  assumes "call_step c c'" "pc c = Returned r"
  shows "pc c' = Returned r \<and> got c' = got c \<and> sent c' = sent c \<and> err c' = err c
    \<and> queued c' = queued c \<and> actions c' = actions c"
  using assms
proof (cases rule: call_step.cases)
  case (ended e)
  then show ?thesis by (elim ctx_endE) (simp add: assms(2))
next
  case begun
  then show ?thesis using assms(2) by (elim Execute_beginE) simp_all
next
  case (selected d room i ch out)
  then show ?thesis using assms(2) by (elim Execute_selectE) simp_all
next
  case received
  then show ?thesis using assms(2) by (elim Execute_receiveE) simp_all
next
  case returned
  then show ?thesis using assms(2) by (elim Execute_returnE) simp_all
qed (simp_all add: assms(2))

lemma returned_frozen:
  assumes "call_step\<^sup>*\<^sup>* c c'" "pc c = Returned r"
  shows "pc c' = Returned r \<and> got c' = got c \<and> sent c' = sent c \<and> err c' = err c
    \<and> queued c' = queued c \<and> actions c' = actions c"
  using assms by (induction rule: rtranclp_induct) (auto dest: returned_frozen_step)

lemma collecting_step:
  assumes "call_step c c'" "pc c = Collecting"
  shows "sent c' = sent c \<and> actions c' = actions c
    \<and> (\<exists>g. got c' = got c @ g \<and> err c' = first_error (err c) g
           \<and> queued c' + length g = queued c)
    \<and> (pc c' = Collecting \<or> pc c' = Returned (err c') \<and> queued c' = 0)
    \<and> (derived c \<noteq> None \<longrightarrow> derived c' \<noteq> None)
    \<and> (err c = None \<and> err c' \<noteq> None \<longrightarrow> derived c' \<noteq> None)"
  using assms
proof (cases rule: call_step.cases)
  case stay
  then show ?thesis using assms(2) by auto
next
  case (ended e)
  then show ?thesis using assms(2) by (elim ctx_endE) auto
next
  case begun
  then show ?thesis using assms(2) by (elim Execute_beginE) simp_all
next
  case (selected d room i ch out)
  then show ?thesis using assms(2) by (elim Execute_selectE) simp_all
next
  case received
  then show ?thesis using assms(2)
    by (elim Execute_receiveE)
      (auto simp: first_error_def derived_cancel split: option.splits)
next
  case returned
  then show ?thesis using assms(2)
    by (elim Execute_returnE) (auto simp: derived_cancel split: option.splits)
next
  case (delivered r)
  then show ?thesis using assms(2) by auto
qed

lemma collecting_steps:
  assumes "call_step\<^sup>*\<^sup>* c c'" "pc c = Collecting"
  shows "sent c' = sent c \<and> actions c' = actions c
    \<and> (\<exists>g. got c' = got c @ g \<and> err c' = first_error (err c) g
           \<and> queued c' + length g = queued c)
    \<and> (pc c' = Collecting \<or> pc c' = Returned (err c') \<and> queued c' = 0)
    \<and> (derived c \<noteq> None \<longrightarrow> derived c' \<noteq> None)
    \<and> (err c = None \<and> err c' \<noteq> None \<longrightarrow> derived c' \<noteq> None)"
  using assms
proof (induction rule: rtranclp_induct)
  case base
  then show ?case by auto
next
  case (step y z)
  from step.IH [OF step.prems] obtain g where
    y: "sent y = sent c" "actions y = actions c" "got y = got c @ g"
      "err y = first_error (err c) g" "queued y + length g = queued c"
      "pc y = Collecting \<or> pc y = Returned (err y) \<and> queued y = 0"
      "derived c \<noteq> None \<longrightarrow> derived y \<noteq> None"
      "err c = None \<and> err y \<noteq> None \<longrightarrow> derived y \<noteq> None"
    by blast
  from y(6) show ?case
  proof
    assume "pc y = Collecting"
    from collecting_step [OF step.hyps(2) this] obtain h where
      z: "sent z = sent y" "actions z = actions y" "got z = got y @ h"
        "err z = first_error (err y) h" "queued z + length h = queued y"
        "pc z = Collecting \<or> pc z = Returned (err z) \<and> queued z = 0"
        "derived y \<noteq> None \<longrightarrow> derived z \<noteq> None"
        "err y = None \<and> err z \<noteq> None \<longrightarrow> derived z \<noteq> None"
      by blast
    have fe: "first_error (first_error (err c) g) h = first_error (err c) (g @ h)"
      by (rule first_error_append)
    have "got z = got c @ (g @ h) \<and> err z = first_error (err c) (g @ h)
        \<and> queued z + length (g @ h) = queued c"
      using y z fe by simp
    then have "\<exists>g'. got z = got c @ g' \<and> err z = first_error (err c) g'
        \<and> queued z + length g' = queued c" ..
    moreover have "derived c \<noteq> None \<longrightarrow> derived z \<noteq> None" using y z by blast
    moreover have "err c = None \<and> err z \<noteq> None \<longrightarrow> derived z \<noteq> None"
      using y z by (cases "err y") auto
    ultimately show ?thesis using y(1,2) z(1,2,6) by simp
  next
    assume r: "pc y = Returned (err y) \<and> queued y = 0"
    then have "pc z = Returned (err y) \<and> got z = got y \<and> sent z = sent y \<and> err z = err y
      \<and> queued z = queued y \<and> actions z = actions y"
      using returned_frozen_step [OF step.hyps(2)] by blast
    moreover have "derived y \<noteq> None \<longrightarrow> derived z \<noteq> None"
      using step.hyps(2) r
      by (cases rule: call_step.cases)
        (auto elim!: ctx_endE Execute_beginE Execute_selectE Execute_receiveE Execute_returnE)
    ultimately show ?thesis using y r by auto
  qed
qed

lemma pending_step:
  assumes "step exec e s = Some s'"
  shows "(if e = Take w then 1 else 0) + pending w s = (if e = Send w then 1 else 0) + pending w s'"
  using assms
  by (cases rule: stepE) (auto simp: pending_def nth_list_update)

lemma pending_run:
  "run exec evs s = Some s' \<Longrightarrow>
     count_event (Take w) evs + pending w s = count_event (Send w) evs + pending w s'"
proof (induction evs arbitrary: s)
  case Nil
  then show ?case by (simp add: count_event_def)
next
  case (Cons e es)
  from Cons.prems obtain s1 where e: "step exec e s = Some s1" and es: "run exec es s1 = Some s'"
    by (auto split: option.splits)
  from pending_step [OF e, of w] Cons.IH [OF es] show ?case
    by (auto simp: count_event_def split: if_splits)
qed

lemma pending_Pool: "pending w (Pool ncpu n d) = 0"
  by (simp add: pending_def workers_Pool)

lemma run_returned:
  assumes "run exec evs s = Some s'" "i < length (calls s)" "pc (calls s ! i) = Returned r"
  shows "pc (calls s' ! i) = Returned r" "got (calls s' ! i) = got (calls s ! i)"
    "sent (calls s' ! i) = sent (calls s ! i)"
proof -
  from run_call_steps [OF assms(1,2)]
  have "call_step\<^sup>*\<^sup>* (calls s ! i) (calls s' ! i)" by simp
  from returned_frozen [OF this assms(3)]
  show "pc (calls s' ! i) = Returned r" "got (calls s' ! i) = got (calls s ! i)"
    "sent (calls s' ! i) = sent (calls s ! i)"
    by simp_all
qed

lemma run_collecting:
  assumes "run exec evs s = Some s'" "i < length (calls s)" "pc (calls s ! i) = Collecting"
  shows "sent (calls s' ! i) = sent (calls s ! i) \<and> actions (calls s' ! i) = actions (calls s ! i)
    \<and> (\<exists>g. got (calls s' ! i) = got (calls s ! i) @ g
           \<and> err (calls s' ! i) = first_error (err (calls s ! i)) g
           \<and> queued (calls s' ! i) + length g = queued (calls s ! i))
    \<and> (pc (calls s' ! i) = Collecting
        \<or> pc (calls s' ! i) = Returned (err (calls s' ! i)) \<and> queued (calls s' ! i) = 0)
    \<and> (derived (calls s ! i) \<noteq> None \<longrightarrow> derived (calls s' ! i) \<noteq> None)
    \<and> (err (calls s ! i) = None \<and> err (calls s' ! i) \<noteq> None \<longrightarrow> derived (calls s' ! i) \<noteq> None)"
proof -
  from run_call_steps [OF assms(1,2)]
  have "call_step\<^sup>*\<^sup>* (calls s ! i) (calls s' ! i)" by simp
  from collecting_steps [OF this assms(3)] show ?thesis .
qed

lemma all_exited_step:
  assumes "step exec e s = Some s'" "pool_inv s" "all_exited s" "i < length (calls s)"
  shows "all_exited s' \<and> results_sent (calls s' ! i) = results_sent (calls s ! i)"
proof -
  have ex: "workers s ! w = Exited" if "w < length (workers s)" for w
    using assms(3) that by (simp add: all_exited_def)
  from assms(1) show ?thesis
proof (cases rule: stepE)
  case (Call st as)
  with assms(3,4) show ?thesis by (simp add: all_exited_def nth_append)
next
  case CloseDone
  with assms(3) show ?thesis by (simp add: all_exited_def)
next
  case (CtxEnd j er c')
  from CtxEnd(3) have "results_sent c' = results_sent (calls s ! j)"
    by (cases rule: ctx_endE) (simp add: results_sent_def)
  with CtxEnd assms(3,4) show ?thesis
    by (cases "i = j") (simp_all add: all_exited_def)
next
  case (Begin j c')
  have "acct j s" "call_ok (calls s ! j)"
    using assms(2) Begin(2) by (simp_all add: pool_inv_def accts_def calls_ok_def)
  with Begin(3) have "results_sent c' = results_sent (calls s ! j)"
    using at_entry_no_results [of j s]
    by (cases rule: Execute_beginE) (simp_all add: results_sent_def)
  with Begin assms(3,4) show ?thesis
    by (cases "i = j") (simp_all add: all_exited_def)
next
  case (Select j ch c' out)
  from Select(3) have "results_sent c' = results_sent (calls s ! j)"
    by (cases rule: Execute_selectE) (simp_all add: results_sent_def)
  with Select assms(3,4) show ?thesis
    by (cases "i = j") (simp_all add: all_exited_def)
next
  case (Receive j c')
  from Receive(3) have "results_sent c' = results_sent (calls s ! j)"
    by (cases rule: Execute_receiveE) (simp_all add: results_sent_def)
  with Receive assms(3,4) show ?thesis
    by (cases "i = j") (simp_all add: all_exited_def)
next
  case (Return j c')
  from Return(3) have "results_sent c' = results_sent (calls s ! j)"
    by (cases rule: Execute_returnE) (simp_all add: results_sent_def)
  with Return assms(3,4) show ?thesis
    by (cases "i = j") (simp_all add: all_exited_def)
next
  case (Quit w)
  with ex [of w] show ?thesis by simp
next
  case (Take w a q)
  with ex [of w] show ?thesis by simp
next
  case (Finish w a)
  with ex [of w] show ?thesis by simp
next
  case (Send w a r)
  with ex [of w] show ?thesis by simp
qed
qed

lemma all_exited_run:
  assumes "run exec evs s = Some s'" "pool_inv s" "all_exited s" "i < length (calls s)"
  shows "all_exited s' \<and> results_sent (calls s' ! i) = results_sent (calls s ! i)"
  using assms
proof (induction evs arbitrary: s)
  case Nil
  then show ?case by simp
next
  case (Cons e es)
  from Cons.prems(1) obtain s1 where e: "step exec e s = Some s1" and es: "run exec es s1 = Some s'"
    by (auto split: option.splits)
  from all_exited_step [OF e Cons.prems(2,3,4)]
  have 1: "all_exited s1" "results_sent (calls s1 ! i) = results_sent (calls s ! i)" by simp_all
  have 2: "i < length (calls s1)" using step_length_calls [OF e] Cons.prems(4) by simp
  from Cons.IH [OF es inv_step [OF e Cons.prems(2)] 1(1) 2] 1(2) show ?case by simp
qed

text \<open>
  Once every worker has returned, a call that waits at line 54 for more results than its
  channel buffers waits for ever: it stays at line 53 with results outstanding, whatever
  happens.
\<close>

lemma collecting_starved:
  assumes "run exec evs s = Some s'" "pool_inv s" "all_exited s" "i < length (calls s)"
    "pc (calls s ! i) = Collecting" "length (res (calls s ! i)) < queued (calls s ! i)"
  shows "pc (calls s' ! i) = Collecting" "0 < queued (calls s' ! i)"
proof -
  from all_exited_run [OF assms(1,2,3,4)]
  have rs: "results_sent (calls s' ! i) = results_sent (calls s ! i)" by simp
  from run_collecting [OF assms(1,4,5)] obtain g where
    g: "got (calls s' ! i) = got (calls s ! i) @ g"
      "queued (calls s' ! i) + length g = queued (calls s ! i)"
    and p: "pc (calls s' ! i) = Collecting
      \<or> pc (calls s' ! i) = Returned (err (calls s' ! i)) \<and> queued (calls s' ! i) = 0"
    by blast
  from rs g(1) have "length g \<le> length (res (calls s ! i))"
    by (simp add: results_sent_def)
  with g(2) assms(6) show q: "0 < queued (calls s' ! i)" by linarith
  with p show "pc (calls s' ! i) = Collecting" by auto
qed

lemma calls_left_update:
  "i < length cs \<Longrightarrow>
     sum_list (map call_left (cs[i := c])) + call_left (cs ! i)
       = sum_list (map call_left cs) + call_left c"
  by (rule sum_list_map_update)

lemma workers_left_update:
  "w < length ws \<Longrightarrow>
     sum_list (map worker_left (ws[w := x])) + worker_left (ws ! w)
       = sum_list (map worker_left ws) + worker_left x"
  by (rule sum_list_map_update)

lemma step_decreases:
  assumes "step exec e s = Some s'" "program e"
  shows "work_left s' < work_left s"
  using assms(1)
proof (cases rule: stepE)
  case (Call st as)
  with assms(2) show ?thesis by (simp add: program_def)
next
  case CloseDone
  with assms(2) show ?thesis by (simp add: program_def)
next
  case (CtxEnd i er c')
  with assms(2) show ?thesis by (simp add: program_def)
next
  case (Begin i c')
  from Begin(3) have "call_left c' < call_left (calls s ! i)"
    by (cases rule: Execute_beginE) (simp_all add: call_left_def)
  with calls_left_update [OF Begin(2), of c'] Begin(4) show ?thesis
    by (simp add: work_left_def)
next
  case (Select i ch c' out)
  from Select(3) have "call_left c' + 4 * length out < call_left (calls s ! i)"
    by (cases rule: Execute_selectE) (simp_all add: call_left_def)
  with calls_left_update [OF Select(2), of c'] Select(4) show ?thesis
    by (simp add: work_left_def)
next
  case (Receive i c')
  from Receive(3) have "call_left c' < call_left (calls s ! i)"
    by (cases rule: Execute_receiveE) (simp_all add: call_left_def)
  with calls_left_update [OF Receive(2), of c'] Receive(4) show ?thesis
    by (simp add: work_left_def)
next
  case (Return i c')
  from Return(3) have "call_left c' < call_left (calls s ! i)"
    by (cases rule: Execute_returnE) (simp_all add: call_left_def)
  with calls_left_update [OF Return(2), of c'] Return(4) show ?thesis
    by (simp add: work_left_def)
next
  case (Quit w)
  with workers_left_update [OF Quit(2), of Exited] show ?thesis
    by (simp add: work_left_def worker_left_def)
next
  case (Take w a q)
  with workers_left_update [OF Take(2), of "Busy a"] show ?thesis
    by (simp add: work_left_def worker_left_def)
next
  case (Finish w a)
  with workers_left_update [OF Finish(2),
      of "Sending a (exec (action a) (derived (calls s ! ctx a)))"]
  show ?thesis by (simp add: work_left_def worker_left_def)
next
  case (Send w a r)
  let ?c = "(calls s ! response a)\<lparr>res := res (calls s ! response a) @ [r]\<rparr>"
  have "call_left ?c = call_left (calls s ! response a) + 1"
    by (simp add: call_left_def split: pc.splits)
  with workers_left_update [OF Send(2), of Idle] calls_left_update [OF Send(4), of ?c] Send
  show ?thesis by (simp add: work_left_def worker_left_def)
qed

lemma Execute_keeps_arguments:
  "Execute_begin c = Some c' \<Longrightarrow> parent c' = parent c \<and> actions c' = actions c"
  "Execute_select d room j ch c = Some (c', out) \<Longrightarrow>
     parent c' = parent c \<and> actions c' = actions c"
  "Execute_receive c = Some c' \<Longrightarrow> parent c' = parent c \<and> actions c' = actions c"
  "Execute_return c = Some c' \<Longrightarrow> parent c' = parent c \<and> actions c' = actions c"
  by (auto elim!: Execute_beginE Execute_selectE Execute_receiveE Execute_returnE)

lemma step_program_keeps:
  assumes "step exec e s = Some s'" "program e" "i < length (calls s)"
  shows "p_done s' = p_done s" "length (calls s') = length (calls s)"
    "parent (calls s' ! i) = parent (calls s ! i)" "actions (calls s' ! i) = actions (calls s ! i)"
proof -
  from assms(1) have "p_done s' = p_done s \<and> length (calls s') = length (calls s)
    \<and> parent (calls s' ! i) = parent (calls s ! i) \<and> actions (calls s' ! i) = actions (calls s ! i)"
  proof (cases rule: stepE)
    case (Call st as)
    with assms(2) show ?thesis by (simp add: program_def)
  next
    case CloseDone
    with assms(2) show ?thesis by (simp add: program_def)
  next
    case (CtxEnd j er c')
    with assms(2) show ?thesis by (simp add: program_def)
  next
    case (Begin j c')
    with Execute_keeps_arguments(1) [OF Begin(3)] assms(3) show ?thesis
      by (cases "i = j") simp_all
  next
    case (Select j ch c' out)
    with Execute_keeps_arguments(2) [OF Select(3)] assms(3) show ?thesis
      by (cases "i = j") simp_all
  next
    case (Receive j c')
    with Execute_keeps_arguments(3) [OF Receive(3)] assms(3) show ?thesis
      by (cases "i = j") simp_all
  next
    case (Return j c')
    with Execute_keeps_arguments(4) [OF Return(3)] assms(3) show ?thesis
      by (cases "i = j") simp_all
  next
    case (Send w a r)
    with assms(3) show ?thesis by (cases "i = response a") simp_all
  qed simp_all
  then show "p_done s' = p_done s" "length (calls s') = length (calls s)"
    "parent (calls s' ! i) = parent (calls s ! i)" "actions (calls s' ! i) = actions (calls s ! i)"
    by simp_all
qed

lemma call_step_arguments:
  assumes "call_step c c'"
  shows "actions c' = actions c" "parent c' = None \<Longrightarrow> parent c = None"
proof -
  from assms have "actions c' = actions c \<and> (parent c' = None \<longrightarrow> parent c = None)"
  proof (cases rule: call_step.cases)
    case (ended e)
    then show ?thesis by (elim ctx_endE) simp
  next
    case begun
    then show ?thesis by (elim Execute_beginE) simp_all
  next
    case (selected d room i ch out)
    then show ?thesis by (elim Execute_selectE) simp_all
  next
    case received
    then show ?thesis by (elim Execute_receiveE) simp_all
  next
    case returned
    then show ?thesis by (elim Execute_returnE) simp_all
  qed simp_all
  then show "actions c' = actions c" "parent c' = None \<Longrightarrow> parent c = None"
    by simp_all
qed

lemma step_p_done: "step exec e s = Some s' \<Longrightarrow> p_done s \<Longrightarrow> p_done s'"
  by (erule stepE) simp_all

lemma quiet_back:
  assumes "step exec e s = Some s'" "i < length (calls s)" "quiet exec i s'"
  shows "quiet exec i s"
proof -
  from step_call_step [OF assms(1,2)]
  have cs: "call_step (calls s ! i) (calls s' ! i)" by simp
  from call_step_arguments [OF cs] step_p_done [OF assms(1)] assms(3)
  show ?thesis by (auto simp: quiet_def)
qed

lemma busy_action_sent:
  assumes "pool_inv s" "w < length (workers s)" "workers s ! w = Busy a"
  shows "action a \<in> set (actions (calls s ! response a))"
proof -
  let ?i = "response a"
  have i: "?i < length (calls s)"
    using held_env_ok(2) [OF assms(1,2), of a] assms(3) by simp
  have "action a \<in># busy_acts ?i (workers s)"
    using busy_acts_nth [OF assms(2), of ?i] assms(3) by (simp add: busy_of_def)
  moreover have "acct ?i s" "call_ok (calls s ! ?i)"
    using assms(1) i by (simp_all add: pool_inv_def accts_def calls_ok_def)
  ultimately have "action a \<in># mset (sent (calls s ! ?i))"
    and p: "prefix (sent (calls s ! ?i)) (actions (calls s ! ?i))"
    by (simp_all add: acct_def call_ok_def)
  then have "action a \<in> set (sent (calls s ! ?i))" by simp
  with set_mono_prefix [OF p] show ?thesis by blast
qed

text \<open>
  A worker is inside an action of a call only between line 38 and the return of the call,
  unless the call has returned an error: a nil return has received every result.
\<close>

lemma busy_has_derived:
  assumes "pool_inv s" "w < length (workers s)" "workers s ! w = Busy a"
    "\<And>r. pc (calls s ! response a) = Returned r \<Longrightarrow> r = None"
  shows "has_derived (calls s ! response a)"
proof -
  let ?i = "response a"
  have i: "?i < length (calls s)"
    using held_env_ok(2) [OF assms(1,2), of a] assms(3) by simp
  have "busy_acts ?i (workers s) = busy_acts ?i ((workers s)[w := Idle]) + {#action a#}"
    using busy_acts_nth [OF assms(2), of ?i] assms(3) by (simp add: busy_of_def)
  then have "1 \<le> size (busy_acts ?i (workers s))" by simp
  with results_bound [OF assms(1) i]
  have lt: "length (got (calls s ! ?i)) < length (sent (calls s ! ?i))" by linarith
  have cok: "call_ok (calls s ! ?i)" using assms(1) i by (simp add: pool_inv_def calls_ok_def)
  show ?thesis
  proof (cases "pc (calls s ! ?i)")
    case AtEntry
    with cok lt show ?thesis by (simp add: call_ok_def)
  next
    case (Enqueuing rest)
    then show ?thesis by (simp add: has_derived_def)
  next
    case Collecting
    then show ?thesis by (simp add: has_derived_def)
  next
    case (Returned r)
    with assms(4) have "pc (calls s ! ?i) = Returned None" by simp
    with cok lt show ?thesis by (auto simp: call_ok_def)
  qed
qed

lemma undisturbed_step:
  assumes st: "step exec e s = Some s'" and inv: "pool_inv s" and i': "i < length (calls s')"
    and old: "i < length (calls s) \<Longrightarrow> undisturbed exec i s"
  shows "undisturbed exec i s'"
  unfolding undisturbed_def
proof (intro impI)
  assume q': "quiet exec i s'"
  have q: "quiet exec i s" if "i < length (calls s)"
    using quiet_back [OF st that q'] .
  have u: "err (calls s ! i) = None"
    "has_derived (calls s ! i) \<Longrightarrow> derived (calls s ! i) = None"
    "\<forall>x\<in>#ran_vals i (finished s). x = None"
    "\<And>r. pc (calls s ! i) = Returned r \<Longrightarrow> r = None"
    if "i < length (calls s)"
    using old [OF that] q [OF that] by (simp_all add: undisturbed_def)
  from st show "err (calls s' ! i) = None
        \<and> (has_derived (calls s' ! i) \<longrightarrow> derived (calls s' ! i) = None)
        \<and> (\<forall>x\<in>#ran_vals i (finished s'). x = None)
        \<and> (\<forall>r. pc (calls s' ! i) = Returned r \<longrightarrow> r = None)"
  proof (cases rule: stepE)
    case (Call st as)
    show ?thesis
    proof (cases "i < length (calls s)")
      case True
      with u [OF True] Call show ?thesis by (simp add: nth_append)
    next
      case False
      with i' Call have "i = length (calls s)" by simp
      moreover have "envs_ok s" using inv by (simp add: pool_inv_def)
      ultimately show ?thesis
        using Call no_envelopes(4) [of s i] by (simp add: new_call_def has_derived_def)
    qed
  next
    case CloseDone
    with q' show ?thesis by (simp add: quiet_def)
  next
    case (CtxEnd j er c')
    have i: "i < length (calls s)" using CtxEnd i' by simp
    show ?thesis
    proof (cases "i = j")
      case True
      from CtxEnd(3) have "parent c' \<noteq> None" by (cases rule: ctx_endE) simp
      with q' CtxEnd True i show ?thesis by (simp add: quiet_def)
    next
      case False
      with u [OF i] CtxEnd show ?thesis by simp
    qed
  next
    case (Begin j c')
    have i: "i < length (calls s)" using Begin i' by simp
    show ?thesis
    proof (cases "i = j")
      case True
      from Begin(3) q [OF i] u [OF i] True Begin(4) i show ?thesis
        by (cases rule: Execute_beginE) (auto simp: has_derived_def quiet_def)
    next
      case False
      with u [OF i] Begin show ?thesis by simp
    qed
  next
    case (Select j ch c' out)
    have i: "i < length (calls s)" using Select i' by simp
    show ?thesis
    proof (cases "i = j")
      case True
      from Select(3) q [OF i] u [OF i] True Select(4) i show ?thesis
        by (cases rule: Execute_selectE) (auto simp: has_derived_def quiet_def)
    next
      case False
      with u [OF i] Select show ?thesis by simp
    qed
  next
    case (Receive j c')
    have i: "i < length (calls s)" using Receive i' by simp
    show ?thesis
    proof (cases "i = j")
      case True
      from Receive(3) show ?thesis
      proof (cases rule: Execute_receiveE)
        case (1 r rs)
        have "acct i s" using inv i by (simp add: pool_inv_def accts_def)
        with 1(3) True have "r \<in># ran_vals i (finished s)" by (simp add: acct_def)
        with u(3) [OF i] have "r = None" by blast
        with 1 u [OF i] True Receive(4) i show ?thesis by (simp add: has_derived_def)
      qed
    next
      case False
      with u [OF i] Receive show ?thesis by simp
    qed
  next
    case (Return j c')
    have i: "i < length (calls s)" using Return i' by simp
    show ?thesis
    proof (cases "i = j")
      case True
      from Return(3) u [OF i] True Return(4) i show ?thesis
        by (cases rule: Execute_returnE) (simp add: has_derived_def)
    next
      case False
      with u [OF i] Return show ?thesis by simp
    qed
  next
    case (Quit w)
    with u i' show ?thesis by simp
  next
    case (Take w a q)
    with u i' show ?thesis by simp
  next
    case (Finish w a)
    have i: "i < length (calls s)" using Finish i' by simp
    have "exec (action a) (derived (calls s ! ctx a)) = None" if r: "response a = i"
    proof -
      have c: "ctx a = i"
        using held_env_ok(3) [OF inv Finish(2), of a] Finish(3) r by simp
      have "has_derived (calls s ! response a)"
        using busy_has_derived [OF inv Finish(2,3)] u(4) [OF i] r by simp
      with u(2) [OF i] r have "derived (calls s ! i) = None" by simp
      moreover have "exec (action a) None = None"
        using busy_action_sent [OF inv Finish(2,3)] q [OF i] r by (simp add: quiet_def)
      ultimately show ?thesis using c by simp
    qed
    with u [OF i] Finish show ?thesis by (auto simp: ran_vals_def)
  next
    case (Send w a r)
    have i: "i < length (calls s)" using Send i' by simp
    with u [OF i] Send show ?thesis
      by (cases "i = response a") (simp_all add: has_derived_def)
  qed
qed

lemma undisturbed_run:
  "run exec evs s = Some s' \<Longrightarrow> pool_inv s \<Longrightarrow> undisturbed_all exec s \<Longrightarrow>
     undisturbed_all exec s'"
proof (induction evs arbitrary: s)
  case Nil
  then show ?case by simp
next
  case (Cons e es)
  from Cons.prems(1) obtain s1 where e: "step exec e s = Some s1" and es: "run exec es s1 = Some s'"
    by (auto split: option.splits)
  have "undisturbed_all exec s1"
    unfolding undisturbed_all_def
    using undisturbed_step [OF e Cons.prems(2)] Cons.prems(3)
    by (auto simp: undisturbed_all_def)
  from Cons.IH [OF es inv_step [OF e Cons.prems(2)] this] show ?case .
qed

lemma undisturbed_reach:
  assumes "run exec evs (Pool ncpu n d) = Some s" "i < length (calls s)"
  shows "undisturbed exec i s"
proof -
  have "undisturbed_all exec (Pool ncpu n d)"
    by (simp add: undisturbed_all_def Pool_def Let_def)
  from undisturbed_run [OF assms(1) inv_Pool this] assms(2) show ?thesis
    by (simp add: undisturbed_all_def)
qed

lemma idle_workers_hold_nothing:
  assumes "\<forall>w<length ws. ws ! w = Idle"
  shows "busy_acts i ws = {#}" "sending_vals i ws = {#}"
proof -
  have idle: "w = Idle" if "w \<in> set ws" for w
    using assms that by (auto simp: in_set_conv_nth)
  have z: "busy_of i w = {#} \<and> sending_of i w = {#}" if "w \<in> set ws" for w
    using idle [OF that] by (simp add: busy_of_def sending_of_def)
  show "busy_acts i ws = {#}"
    unfolding busy_acts_def by (rule sum_list_map_zero) (simp add: z)
  show "sending_vals i ws = {#}"
    unfolding sending_vals_def by (rule sum_list_map_zero) (simp add: z)
qed

lemma workers_can_move:
  assumes "pool_inv s" "\<not> p_done s" "workers s \<noteq> []"
    "p_in s \<noteq> [] \<or> (\<exists>w<length (workers s). workers s ! w \<noteq> Idle)"
  shows "\<exists>e. program e \<and> step exec e s \<noteq> None"
proof (cases "\<exists>w<length (workers s). workers s ! w \<noteq> Idle")
  case True
  then obtain w where w: "w < length (workers s)" "workers s ! w \<noteq> Idle" by blast
  show ?thesis
  proof (cases "workers s ! w")
    case Idle
    with w show ?thesis by simp
  next
    case (Busy a)
    from step_Finish_ready [OF assms(1) w(1) Busy, of exec]
    have "program (Finish w) \<and> step exec (Finish w) s \<noteq> None" by (simp add: program_def)
    then show ?thesis ..
  next
    case (Sending a r)
    from step_Send_ready [OF assms(1) w(1) Sending, of exec]
    have "program (Send w) \<and> step exec (Send w) s \<noteq> None" by (simp add: program_def)
    then show ?thesis ..
  next
    case Exited
    with w(1) have "Exited \<in> set (workers s)" by (metis nth_mem)
    with assms(1,2) show ?thesis by (simp add: pool_inv_def exited_ok_def)
  qed
next
  case False
  with assms(4) obtain a q where q: "p_in s = a # q" by (cases "p_in s") auto
  from False assms(3) have "0 < length (workers s)" "workers s ! 0 = Idle" by auto
  with q have "program (Take 0) \<and> step exec (Take 0) s \<noteq> None"
    by (simp add: program_def work_take_def)
  then show ?thesis ..
qed

lemma progress:
  assumes "pool_inv s" "\<not> p_done s" "0 < p_in_cap s" "i < length (calls s)"
    "\<forall>r. pc (calls s ! i) \<noteq> Returned r"
  shows "\<exists>e. program e \<and> step exec e s \<noteq> None"
proof -
  have cok: "call_ok (calls s ! i)" using assms(1,4) by (simp add: pool_inv_def calls_ok_def)
  have ws: "workers s \<noteq> []" using assms(1,3) by (auto simp: pool_inv_def)
  show ?thesis
  proof (cases "pc (calls s ! i)")
    case AtEntry
    then have "program (Begin i) \<and> step exec (Begin i) s \<noteq> None"
      using assms(4) by (simp add: program_def on_call_def Execute_begin_def Let_def)
    then show ?thesis ..
  next
    case (Enqueuing rest)
    with cok obtain a rest' where r: "rest = a # rest'"
      by (cases rest) (auto simp: call_ok_def)
    show ?thesis
    proof (cases "length (p_in s) < p_in_cap s")
      case True
      with Enqueuing r assms(4)
      have "program (Select i CaseSend) \<and> step exec (Select i CaseSend) s \<noteq> None"
        by (simp add: program_def Execute_select_def)
      then show ?thesis ..
    next
      case False
      with assms(3) have "p_in s \<noteq> []" by auto
      with workers_can_move [OF assms(1,2) ws] show ?thesis by blast
    qed
  next
    case Collecting
    show ?thesis
    proof (cases "queued (calls s ! i) = 0")
      case True
      with Collecting assms(4) have "program (Return i) \<and> step exec (Return i) s \<noteq> None"
        by (simp add: program_def on_call_def Execute_return_def)
      then show ?thesis ..
    next
      case False
      show ?thesis
      proof (cases "res (calls s ! i)")
        case (Cons r rs)
        with Collecting False assms(4)
        have "program (Receive i) \<and> step exec (Receive i) s \<noteq> None"
          by (simp add: program_def on_call_def Execute_receive_def Let_def)
        then show ?thesis ..
      next
        case Nil
        from cok have "queued (calls s ! i) + length (got (calls s ! i)) = length (sent (calls s ! i))"
          by (simp add: call_ok_def)
        moreover have "length (res (calls s ! i)) = 0" "0 < queued (calls s ! i)"
          using Nil False by simp_all
        ultimately
        have pos: "0 < size (sending_vals i (workers s)) + size (busy_acts i (workers s))
            + size (queued_acts i (p_in s))"
          using results_bound [OF assms(1,4)] by linarith
        have "p_in s \<noteq> [] \<or> (\<exists>w<length (workers s). workers s ! w \<noteq> Idle)"
        proof (rule ccontr)
          assume "\<not> ?thesis"
          then have "p_in s = []" "\<forall>w<length (workers s). workers s ! w = Idle" by auto
          with idle_workers_hold_nothing [of "workers s" i] pos show False
            by (simp add: queued_acts_def)
        qed
        with workers_can_move [OF assms(1,2) ws] show ?thesis by blast
      qed
    qed
  next
    case (Returned r)
    with assms(5) show ?thesis by simp
  qed
qed

lemma program_run_bound:
  "run exec evs s = Some s' \<Longrightarrow> \<forall>e\<in>set evs. program e \<Longrightarrow>
     length evs + work_left s' \<le> work_left s"
proof (induction evs arbitrary: s)
  case Nil
  then show ?case by simp
next
  case (Cons e es)
  from Cons.prems(1) obtain s1 where e: "step exec e s = Some s1" and es: "run exec es s1 = Some s'"
    by (auto split: option.splits)
  from step_decreases [OF e] Cons.prems(2) have "work_left s1 < work_left s" by simp
  with Cons.IH [OF es] Cons.prems(2) show ?case by simp
qed

lemma program_run_keeps:
  "run exec evs s = Some s' \<Longrightarrow> \<forall>e\<in>set evs. program e \<Longrightarrow> i < length (calls s) \<Longrightarrow>
     p_done s' = p_done s \<and> length (calls s') = length (calls s)
     \<and> parent (calls s' ! i) = parent (calls s ! i)
     \<and> actions (calls s' ! i) = actions (calls s ! i)"
proof (induction evs arbitrary: s)
  case Nil
  then show ?case by simp
next
  case (Cons e es)
  from Cons.prems(1) obtain s1 where e: "step exec e s = Some s1" and es: "run exec es s1 = Some s'"
    by (auto split: option.splits)
  have p: "program e" using Cons.prems(2) by simp
  from step_program_keeps [OF e p Cons.prems(3)] Cons.IH [OF es] Cons.prems(2,3)
  show ?case by simp
qed

lemma can_return:
  assumes "pool_inv s" "\<not> p_done s" "0 < p_in_cap s" "i < length (calls s)"
  shows "\<exists>evs s'. (\<forall>e\<in>set evs. program e) \<and> run exec evs s = Some s'
            \<and> (\<exists>r. pc (calls s' ! i) = Returned r)"
  using assms
proof (induction "work_left s" arbitrary: s rule: less_induct)
  case less
  show ?case
  proof (cases "\<exists>r. pc (calls s ! i) = Returned r")
    case True
    then have "(\<forall>e\<in>set []. program e) \<and> run exec [] s = Some s
        \<and> (\<exists>r. pc (calls s ! i) = Returned r)"
      by simp
    then show ?thesis by blast
  next
    case False
    with progress [OF less.prems, of exec] obtain e s1 where
      e: "program e" "step exec e s = Some s1"
      by auto
    have 1: "work_left s1 < work_left s" using step_decreases [OF e(2,1)] .
    have 2: "pool_inv s1" using inv_step [OF e(2) less.prems(1)] .
    have 3: "\<not> p_done s1" "i < length (calls s1)"
      using step_program_keeps(1,2) [OF e(2,1) less.prems(4)] less.prems(2,4) by simp_all
    have 4: "0 < p_in_cap s1" using step_p_in_cap [OF e(2)] less.prems(3) by simp
    from less.hyps [OF 1 2 3(1) 4 3(2)] obtain evs s' where
      r: "\<forall>e\<in>set evs. program e" "run exec evs s1 = Some s'"
        "\<exists>r. pc (calls s' ! i) = Returned r"
      by blast
    then have "(\<forall>x\<in>set (e # evs). program x) \<and> run exec (e # evs) s = Some s'
        \<and> (\<exists>r. pc (calls s' ! i) = Returned r)"
      using e by simp
    then show ?thesis by blast
  qed
qed

lemma returned_nil_facts:
  assumes "pool_inv s" "i < length (calls s)" "pc (calls s ! i) = Returned None"
  shows "sent (calls s ! i) = actions (calls s ! i)"
    "ran_acts i (finished s) = mset (actions (calls s ! i))"
    "ran_vals i (finished s) = mset (got (calls s ! i))"
    "got (calls s ! i) = replicate (length (actions (calls s ! i))) None"
proof -
  let ?c = "calls s ! i"
  have "call_ok ?c" using assms(1,2) by (simp add: pool_inv_def calls_ok_def)
  with assms(3) have c: "sent ?c = actions ?c" "queued ?c = 0" "\<forall>x\<in>set (got ?c). x = None"
    "queued ?c + length (got ?c) = length (sent ?c)"
    by (auto simp: call_ok_def)
  then have len: "length (got ?c) = length (actions ?c)" by simp
  with results_bound [OF assms(1,2)] c(1)
  have "length (res ?c) = 0" "size (sending_vals i (workers s)) = 0"
    "size (busy_acts i (workers s)) = 0" "size (queued_acts i (p_in s)) = 0"
    by simp_all
  then have z: "res ?c = []" "sending_vals i (workers s) = {#}" "busy_acts i (workers s) = {#}"
    "queued_acts i (p_in s) = {#}"
    by simp_all
  have a: "acct i s" using assms(1,2) by (simp add: pool_inv_def accts_def)
  show "sent ?c = actions ?c" by (rule c(1))
  from a z c(1) show "ran_acts i (finished s) = mset (actions ?c)" by (simp add: acct_def)
  from a z show "ran_vals i (finished s) = mset (got ?c)" by (simp add: acct_def)
  from replicate_length_same [of "got ?c" None] c(3) len
  show "got ?c = replicate (length (actions ?c)) None" by simp
qed

section \<open>The claims\<close>

text \<open>
  C6. For every worker count \<open>n\<close> and shutdown signal, \<^verbatim>\<open>Pool(n, done)\<close> makes a
  dispatch queue whose capacity is the effective worker count (\<open>n\<close> when \<open>n > 0\<close>, the
  number of CPUs otherwise) and starts exactly that many workers. They share the queue and
  the signal: in every state the pool reaches, each of them that is at its \<^verbatim>\<open>select\<close> can
  take the head of the one queue, and can return once the one signal is closed.
\<close>

theorem Pool_queue_and_workers:
  fixes s :: "'a state"
  assumes "run exec evs (Pool ncpu n d) = Some s"
  shows "p_in_cap (Pool ncpu n d :: 'a state) = effective ncpu n
    \<and> p_in (Pool ncpu n d :: 'a state) = []
    \<and> p_done (Pool ncpu n d :: 'a state) = d
    \<and> workers (Pool ncpu n d :: 'a state) = replicate (effective ncpu n) Idle
    \<and> p_in_cap s = effective ncpu n
    \<and> length (workers s) = effective ncpu n
    \<and> (w < effective ncpu n \<and> workers s ! w = Idle \<and> p_in s = a # q \<longrightarrow>
         step exec (Take w) s = Some (s\<lparr>p_in := q, workers := (workers s)[w := Busy a]\<rparr>))
    \<and> (w < effective ncpu n \<and> workers s ! w = Idle \<and> p_done s \<longrightarrow>
         step exec (Quit w) s = Some (s\<lparr>workers := (workers s)[w := Exited]\<rparr>))"
proof -
  have len: "length (workers s) = effective ncpu n"
    using run_length_workers [OF assms] by (simp add: workers_Pool)
  have cap: "p_in_cap s = effective ncpu n"
    using run_p_in_cap [OF assms] by (simp add: p_in_cap_Pool)
  have "p_in (Pool ncpu n d :: 'a state) = []" "p_done (Pool ncpu n d :: 'a state) = d"
    by (simp_all add: Pool_def Let_def)
  with len cap show ?thesis
    by (simp add: workers_Pool p_in_cap_Pool work_take_def work_quit_def)
qed

theorem Pool_queue_and_workers_witness:
  "run always_nil demo_enqueued (Pool 4 0 False) =
     Some \<lparr>p_done = False, p_in = [\<lparr>ctx = 0, action = 7, response = 0\<rparr>], p_in_cap = 4,
           workers = [Idle, Idle, Idle, Idle],
           calls = [\<lparr>actions = [7], parent = None, pc = Collecting, derived = None, res = [],
                     res_cap = 1, err = None, queued = 1, sent = [7], got = []\<rparr>],
           finished = []\<rparr>
   \<and> effective 4 0 = 4
   \<and> step always_nil (Take 3)
         \<lparr>p_done = False, p_in = [\<lparr>ctx = 0, action = 7, response = 0\<rparr>], p_in_cap = 4,
           workers = [Idle, Idle, Idle, Idle],
           calls = [\<lparr>actions = [7], parent = None, pc = Collecting, derived = None, res = [],
                     res_cap = 1, err = None, queued = 1, sent = [7], got = []\<rparr>],
           finished = []\<rparr> =
     Some \<lparr>p_done = False, p_in = [], p_in_cap = 4,
           workers = [Idle, Idle, Idle, Busy \<lparr>ctx = 0, action = 7, response = 0\<rparr>],
           calls = [\<lparr>actions = [7], parent = None, pc = Collecting, derived = None, res = [],
                     res_cap = 1, err = None, queued = 1, sent = [7], got = []\<rparr>],
           finished = []\<rparr>
   \<and> length (workers (Pool 4 0 False :: nat state)) = 4
   \<and> effective 8 2 = 2 \<and> effective 8 (- 1) = 8"
proof -
  let ?s = "\<lparr>p_done = False, p_in = [\<lparr>ctx = 0, action = 7, response = 0\<rparr>], p_in_cap = 4,
           workers = [Idle, Idle, Idle, Idle],
           calls = [\<lparr>actions = [7::nat], parent = None, pc = Collecting, derived = None, res = [],
                     res_cap = 1, err = None, queued = 1, sent = [7], got = []\<rparr>],
           finished = []\<rparr>"
  have r: "run always_nil demo_enqueued (Pool 4 0 False) = Some ?s"
    by (simp add: demo_enqueued_def run_simps always_nil_def)
  have e: "effective 4 0 = 4" by (simp add: effective_def)
  note th = Pool_queue_and_workers [OF r, of 3 "\<lparr>ctx = 0, action = 7, response = 0\<rparr>" "[]"]
  have h: "3 < effective 4 0 \<and> workers ?s ! 3 = Idle
      \<and> p_in ?s = [\<lparr>ctx = 0, action = 7, response = 0\<rparr>]"
    by (simp add: e)
  from th h have "step always_nil (Take 3) ?s =
      Some (?s\<lparr>p_in := [], workers := (workers ?s)[3 := Busy \<lparr>ctx = 0, action = 7, response = 0\<rparr>]\<rparr>)"
    by blast
  then have t: "step always_nil (Take 3) ?s =
     Some \<lparr>p_done = False, p_in = [], p_in_cap = 4,
           workers = [Idle, Idle, Idle, Busy \<lparr>ctx = 0, action = 7, response = 0\<rparr>],
           calls = [\<lparr>actions = [7], parent = None, pc = Collecting, derived = None, res = [],
                     res_cap = 1, err = None, queued = 1, sent = [7], got = []\<rparr>],
           finished = []\<rparr>"
    by simp
  from th have l: "length (workers (Pool 4 0 False :: nat state)) = 4"
    by (simp add: e)
  have e': "effective 8 2 = 2" "effective 8 (- 1) = 8" by (simp_all add: effective_def)
  from r e t l e' show ?thesis by (intro conjI)
qed

text \<open>
  C5. \<^verbatim>\<open>Execute\<close> called with an empty slice returns nil at once: its first step is
  never blocked, and changes nothing in the state but the place the call has reached. No
  context was derived and no result channel made (both are as the call found them, absent),
  nothing was sent on \<^verbatim>\<open>p.in\<close> and nothing received.
\<close>

theorem Execute_empty:
  assumes "run exec evs (Pool ncpu n d) = Some s" "i < length (calls s)"
    "pc (calls s ! i) = AtEntry" "actions (calls s ! i) = []"
  shows "step exec (Begin i) s = Some (s\<lparr>calls := (calls s)[i := (calls s ! i)\<lparr>pc := Returned None\<rparr>]\<rparr>)
    \<and> derived (calls s ! i) = None \<and> res (calls s ! i) = [] \<and> res_cap (calls s ! i) = 0
    \<and> got (calls s ! i) = [] \<and> sent (calls s ! i) = []"
proof -
  have "pool_inv s" using assms(1) by (rule reach_inv)
  then have cok: "call_ok (calls s ! i)" and acc: "acct i s"
    using assms(2) by (simp_all add: pool_inv_def calls_ok_def accts_def)
  have "res (calls s ! i) = []"
    using acc cok assms(3) by (rule at_entry_no_results)
  moreover from cok assms(3) have "derived (calls s ! i) = None"
    "res_cap (calls s ! i) = 0" "got (calls s ! i) = []" "sent (calls s ! i) = []"
    by (simp_all add: call_ok_def)
  ultimately show ?thesis using assms
    by (simp add: on_call_def Execute_begin_def put_call_def)
qed

theorem Execute_empty_witness:
  "run always_nil demo_empty (Pool 1 1 False) =
     Some \<lparr>p_done = False, p_in = [\<lparr>ctx = 0, action = 7, response = 0\<rparr>], p_in_cap = 1,
           workers = [Idle],
           calls = [\<lparr>actions = [7], parent = None, pc = Collecting, derived = None, res = [],
                     res_cap = 1, err = None, queued = 1, sent = [7], got = []\<rparr>,
                    \<lparr>actions = [], parent = Some Canceled, pc = AtEntry, derived = None,
                     res = [], res_cap = 0, err = None, queued = 0, sent = [], got = []\<rparr>],
           finished = []\<rparr>
   \<and> step always_nil (Begin 1) (the (run always_nil demo_empty (Pool 1 1 False))) =
     Some \<lparr>p_done = False, p_in = [\<lparr>ctx = 0, action = 7, response = 0\<rparr>], p_in_cap = 1,
           workers = [Idle],
           calls = [\<lparr>actions = [7], parent = None, pc = Collecting, derived = None, res = [],
                     res_cap = 1, err = None, queued = 1, sent = [7], got = []\<rparr>,
                    \<lparr>actions = [], parent = Some Canceled, pc = Returned None, derived = None,
                     res = [], res_cap = 0, err = None, queued = 0, sent = [], got = []\<rparr>],
           finished = []\<rparr>"
proof -
  have r: "run always_nil demo_empty (Pool 1 1 False) =
     Some \<lparr>p_done = False, p_in = [\<lparr>ctx = 0, action = 7, response = 0\<rparr>], p_in_cap = 1,
           workers = [Idle],
           calls = [\<lparr>actions = [7], parent = None, pc = Collecting, derived = None, res = [],
                     res_cap = 1, err = None, queued = 1, sent = [7], got = []\<rparr>,
                    \<lparr>actions = [], parent = Some Canceled, pc = AtEntry, derived = None,
                     res = [], res_cap = 0, err = None, queued = 0, sent = [], got = []\<rparr>],
           finished = []\<rparr>"
    by (simp add: demo_empty_def run_simps always_nil_def)
  have b: "step always_nil (Begin 1) (the (run always_nil demo_empty (Pool 1 1 False))) =
     Some \<lparr>p_done = False, p_in = [\<lparr>ctx = 0, action = 7, response = 0\<rparr>], p_in_cap = 1,
           workers = [Idle],
           calls = [\<lparr>actions = [7], parent = None, pc = Collecting, derived = None, res = [],
                     res_cap = 1, err = None, queued = 1, sent = [7], got = []\<rparr>,
                    \<lparr>actions = [], parent = Some Canceled, pc = Returned None, derived = None,
                     res = [], res_cap = 0, err = None, queued = 0, sent = [], got = []\<rparr>],
           finished = []\<rparr>"
    unfolding r option.sel using Execute_empty [OF r, of 1] by simp
  from r b show ?thesis by (rule conjI)
qed

text \<open>
  C9. With an effective pool size of \<open>n\<close>, at no moment are more than \<open>n\<close> workers
  inside \<^verbatim>\<open>a.action.Execute\<close>, whatever the number of calls of \<^verbatim>\<open>Execute\<close> that share
  the pool.
\<close>

theorem at_most_n_executing:
  assumes "run exec evs (Pool ncpu n d) = Some s"
  shows "length (filter executing (workers s)) \<le> effective ncpu n"
proof -
  have "length (filter executing (workers s)) \<le> length (workers s)"
    by (rule length_filter_le)
  also have "\<dots> = effective ncpu n"
    using run_length_workers [OF assms] by (simp add: workers_Pool)
  finally show ?thesis .
qed

theorem at_most_n_executing_witness:
  "run always_nil demo_two_busy (Pool 8 2 False) =
     Some \<lparr>p_done = False, p_in = [\<lparr>ctx = 0, action = 3, response = 0\<rparr>], p_in_cap = 2,
           workers = [Busy \<lparr>ctx = 0, action = 1, response = 0\<rparr>,
                      Busy \<lparr>ctx = 0, action = 2, response = 0\<rparr>],
           calls = [\<lparr>actions = [1, 2, 3], parent = None, pc = Collecting, derived = None,
                     res = [], res_cap = 3, err = None, queued = 3, sent = [1, 2, 3], got = []\<rparr>],
           finished = []\<rparr>
   \<and> length (filter executing (workers (the (run always_nil demo_two_busy (Pool 8 2 False))))) = 2
   \<and> effective 8 2 = 2
   \<and> step always_nil (Take 0) (the (run always_nil demo_two_busy (Pool 8 2 False))) = None
   \<and> step always_nil (Take 1) (the (run always_nil demo_two_busy (Pool 8 2 False))) = None"
proof -
  have r: "run always_nil demo_two_busy (Pool 8 2 False) =
     Some \<lparr>p_done = False, p_in = [\<lparr>ctx = 0, action = 3, response = 0\<rparr>], p_in_cap = 2,
           workers = [Busy \<lparr>ctx = 0, action = 1, response = 0\<rparr>,
                      Busy \<lparr>ctx = 0, action = 2, response = 0\<rparr>],
           calls = [\<lparr>actions = [1, 2, 3], parent = None, pc = Collecting, derived = None,
                     res = [], res_cap = 3, err = None, queued = 3, sent = [1, 2, 3], got = []\<rparr>],
           finished = []\<rparr>"
    by (simp add: demo_two_busy_def run_simps always_nil_def)
  show ?thesis
    using at_most_n_executing [OF r]
    by (simp add: r) (simp add: effective_def executing_def work_take_def)
qed

text \<open>
  C10, as amended. A worker that has dequeued an envelope executes its action whatever
  the state of the envelope's context: the dequeue, the call and the send of the result
  are each ready in every state the pool reaches, on conditions that never mention the
  context. An action whose context is already cancelled when it is dequeued is still
  called, with that cancelled context, and its result is still sent: a cancellation never
  prevents the execution of an action already enqueued. (That it prevents further
  enqueuing is not part of the amended claim: \<open>demo_cancelled_mid_enqueue\<close> enqueues
  an action after the context of its batch was cancelled.)
\<close>

theorem work_runs_every_envelope:
  assumes "run exec evs (Pool ncpu n d) = Some s" "w < length (workers s)"
  shows "(workers s ! w = Idle \<and> p_in s = a # q \<longrightarrow>
            step exec (Take w) s = Some (s\<lparr>p_in := q, workers := (workers s)[w := Busy a]\<rparr>))
    \<and> (workers s ! w = Busy a \<longrightarrow>
            step exec (Finish w) s =
              Some (s\<lparr>workers :=
                        (workers s)[w := Sending a (exec (action a) (derived (calls s ! ctx a)))],
                      finished :=
                        finished s @ [(a, exec (action a) (derived (calls s ! ctx a)))]\<rparr>))
    \<and> (workers s ! w = Sending a r \<longrightarrow>
            step exec (Send w) s =
              Some (put_call (response a)
                     ((calls s ! response a)\<lparr>res := res (calls s ! response a) @ [r]\<rparr>)
                     (s\<lparr>workers := (workers s)[w := Idle]\<rparr>)))"
proof -
  have i: "pool_inv s" using assms(1) by (rule reach_inv)
  show ?thesis
    using step_Finish_ready [OF i assms(2)] step_Send_ready [OF i assms(2)] assms(2)
    by (simp add: work_take_def)
qed

theorem work_runs_every_envelope_witness:
  "run obeys_ctx demo_cancelled_in_queue (Pool 1 1 False) =
     Some \<lparr>p_done = False, p_in = [\<lparr>ctx = 0, action = 7, response = 0\<rparr>], p_in_cap = 1,
           workers = [Idle],
           calls = [\<lparr>actions = [7], parent = Some Canceled, pc = Collecting,
                     derived = Some Canceled, res = [], res_cap = 1, err = None, queued = 1,
                     sent = [7], got = []\<rparr>],
           finished = []\<rparr>
   \<and> run obeys_ctx (demo_cancelled_in_queue @ [Take 0]) (Pool 1 1 False) =
     Some \<lparr>p_done = False, p_in = [], p_in_cap = 1,
           workers = [Busy \<lparr>ctx = 0, action = 7, response = 0\<rparr>],
           calls = [\<lparr>actions = [7], parent = Some Canceled, pc = Collecting,
                     derived = Some Canceled, res = [], res_cap = 1, err = None, queued = 1,
                     sent = [7], got = []\<rparr>],
           finished = []\<rparr>
   \<and> step obeys_ctx (Finish 0)
        \<lparr>p_done = False, p_in = [], p_in_cap = 1,
           workers = [Busy \<lparr>ctx = 0, action = 7, response = 0\<rparr>],
           calls = [\<lparr>actions = [7], parent = Some Canceled, pc = Collecting,
                     derived = Some Canceled, res = [], res_cap = 1, err = None, queued = 1,
                     sent = [7], got = []\<rparr>],
           finished = []\<rparr> =
     Some \<lparr>p_done = False, p_in = [], p_in_cap = 1,
           workers = [Sending \<lparr>ctx = 0, action = 7, response = 0\<rparr> (Some Canceled)],
           calls = [\<lparr>actions = [7], parent = Some Canceled, pc = Collecting,
                     derived = Some Canceled, res = [], res_cap = 1, err = None, queued = 1,
                     sent = [7], got = []\<rparr>],
           finished = [(\<lparr>ctx = 0, action = 7, response = 0\<rparr>, Some Canceled)]\<rparr>"
proof -
  let ?c = "\<lparr>actions = [7::nat], parent = Some Canceled, pc = Collecting,
             derived = Some Canceled, res = [], res_cap = 1, err = None, queued = 1,
             sent = [7], got = []\<rparr>"
  let ?a = "\<lparr>ctx = 0, action = 7::nat, response = 0\<rparr>"
  let ?s0 = "\<lparr>p_done = False, p_in = [?a], p_in_cap = 1, workers = [Idle], calls = [?c],
              finished = []\<rparr>"
  let ?s1 = "\<lparr>p_done = False, p_in = [], p_in_cap = 1, workers = [Busy ?a], calls = [?c],
              finished = []\<rparr>"
  have r0: "run obeys_ctx demo_cancelled_in_queue (Pool 1 1 False) = Some ?s0"
    by (simp add: demo_cancelled_in_queue_def run_simps obeys_ctx_def)
  have r1: "run obeys_ctx (demo_cancelled_in_queue @ [Take 0]) (Pool 1 1 False) = Some ?s1"
    by (simp add: demo_cancelled_in_queue_def run_simps obeys_ctx_def)
  have "workers ?s1 ! 0 = Busy ?a" by simp
  with work_runs_every_envelope [OF r1, where w = 0 and a = ?a]
  have "step obeys_ctx (Finish 0) ?s1 =
      Some (?s1\<lparr>workers := (workers ?s1)[0 := Sending ?a (obeys_ctx (action ?a) (derived (calls ?s1 ! ctx ?a)))],
                finished := finished ?s1 @ [(?a, obeys_ctx (action ?a) (derived (calls ?s1 ! ctx ?a)))]\<rparr>)"
    by simp
  then have f: "step obeys_ctx (Finish 0) ?s1 =
      Some \<lparr>p_done = False, p_in = [], p_in_cap = 1,
            workers = [Sending ?a (Some Canceled)], calls = [?c], finished = [(?a, Some Canceled)]\<rparr>"
    by (simp add: obeys_ctx_def)
  from r0 r1 f show ?thesis by (intro conjI)
qed

theorem enqueued_after_cancellation:
  "run obeys_ctx (take 5 demo_cancelled_mid_enqueue) (Pool 1 1 False) =
     Some \<lparr>p_done = False, p_in = [], p_in_cap = 1,
           workers = [Busy \<lparr>ctx = 0, action = 7, response = 0\<rparr>],
           calls = [\<lparr>actions = [7, 8], parent = Some Canceled, pc = Enqueuing [8],
                     derived = Some Canceled, res = [], res_cap = 2, err = None, queued = 1,
                     sent = [7], got = []\<rparr>],
           finished = []\<rparr>
   \<and> run obeys_ctx demo_cancelled_mid_enqueue (Pool 1 1 False) =
     Some \<lparr>p_done = False, p_in = [\<lparr>ctx = 0, action = 8, response = 0\<rparr>], p_in_cap = 1,
           workers = [Busy \<lparr>ctx = 0, action = 7, response = 0\<rparr>],
           calls = [\<lparr>actions = [7, 8], parent = Some Canceled, pc = Collecting,
                     derived = Some Canceled, res = [], res_cap = 2, err = None, queued = 2,
                     sent = [7, 8], got = []\<rparr>],
           finished = []\<rparr>"
  by (simp add: demo_cancelled_mid_enqueue_def run_simps obeys_ctx_def)

text \<open>
  C7. Every envelope a worker dequeues yields exactly one send on its response channel.
  Along any schedule a worker has sent as many values as it has dequeued envelopes, less
  the one it is still working on; such a worker is never blocked (the call can return,
  the send is ready), and the value it sends is the one the call returned. For every
  call, the values put on its result channel so far (still buffered or already received),
  with the values about to be sent, are the values returned by the executions of its
  envelopes.
\<close>

theorem one_send_per_envelope:
  assumes "run exec evs (Pool ncpu n d) = Some s"
  shows "count_event (Take w) evs = count_event (Send w) evs + pending w s
    \<and> (i < length (calls s) \<longrightarrow>
          ran_vals i (finished s) =
            mset (res (calls s ! i)) + mset (got (calls s ! i)) + sending_vals i (workers s))
    \<and> (w < length (workers s) \<and> workers s ! w = Busy a \<longrightarrow>
          step exec (Finish w) s =
            Some (s\<lparr>workers :=
                      (workers s)[w := Sending a (exec (action a) (derived (calls s ! ctx a)))],
                    finished :=
                      finished s @ [(a, exec (action a) (derived (calls s ! ctx a)))]\<rparr>))
    \<and> (w < length (workers s) \<and> workers s ! w = Sending a r \<longrightarrow>
          step exec (Send w) s =
            Some (put_call (response a)
                   ((calls s ! response a)\<lparr>res := res (calls s ! response a) @ [r]\<rparr>)
                   (s\<lparr>workers := (workers s)[w := Idle]\<rparr>)))"
proof -
  have i: "pool_inv s" using assms(1) by (rule reach_inv)
  have "count_event (Take w) evs = count_event (Send w) evs + pending w s"
    using pending_run [OF assms, of w] by (simp add: pending_Pool)
  moreover have "ran_vals i (finished s) =
      mset (res (calls s ! i)) + mset (got (calls s ! i)) + sending_vals i (workers s)"
    if "i < length (calls s)"
    using i that by (simp add: pool_inv_def accts_def acct_def)
  ultimately show ?thesis
    using step_Finish_ready [OF i] step_Send_ready [OF i] by simp
qed

theorem one_send_per_envelope_witness:
  "run fails_on_3 demo_two_rounds (Pool 1 1 False) =
     Some \<lparr>p_done = False, p_in = [], p_in_cap = 1,
           workers = [Sending \<lparr>ctx = 0, action = 5, response = 0\<rparr> None],
           calls = [\<lparr>actions = [3, 5], parent = None, pc = Collecting, derived = None,
                     res = [Some (Other 3)], res_cap = 2, err = None, queued = 2,
                     sent = [3, 5], got = []\<rparr>],
           finished = [(\<lparr>ctx = 0, action = 3, response = 0\<rparr>, Some (Other 3)),
                       (\<lparr>ctx = 0, action = 5, response = 0\<rparr>, None)]\<rparr>
   \<and> count_event (Take 0) demo_two_rounds = 2
   \<and> count_event (Send 0) demo_two_rounds = 1
   \<and> pending 0 (the (run fails_on_3 demo_two_rounds (Pool 1 1 False))) = 1
   \<and> ran_vals 0 (finished (the (run fails_on_3 demo_two_rounds (Pool 1 1 False)))) =
       {#Some (Other 3), None#}
   \<and> step fails_on_3 (Send 0) (the (run fails_on_3 demo_two_rounds (Pool 1 1 False))) =
     Some \<lparr>p_done = False, p_in = [], p_in_cap = 1, workers = [Idle],
           calls = [\<lparr>actions = [3, 5], parent = None, pc = Collecting, derived = None,
                     res = [Some (Other 3), None], res_cap = 2, err = None, queued = 2,
                     sent = [3, 5], got = []\<rparr>],
           finished = [(\<lparr>ctx = 0, action = 3, response = 0\<rparr>, Some (Other 3)),
                       (\<lparr>ctx = 0, action = 5, response = 0\<rparr>, None)]\<rparr>"
proof -
  let ?a = "\<lparr>ctx = 0, action = 5::nat, response = 0\<rparr>"
  let ?s = "\<lparr>p_done = False, p_in = [], p_in_cap = 1,
           workers = [Sending ?a None],
           calls = [\<lparr>actions = [3, 5], parent = None, pc = Collecting, derived = None,
                     res = [Some (Other 3)], res_cap = 2, err = None, queued = 2,
                     sent = [3, 5], got = []\<rparr>],
           finished = [(\<lparr>ctx = 0, action = 3, response = 0\<rparr>, Some (Other 3)), (?a, None)]\<rparr>"
  have r: "run fails_on_3 demo_two_rounds (Pool 1 1 False) = Some ?s"
    by (simp add: demo_two_rounds_def run_simps fails_on_3_def)
  note th = one_send_per_envelope [OF r, where w = 0 and i = 0 and a = ?a and r = None]
  have c: "count_event (Take 0) demo_two_rounds = 2" "count_event (Send 0) demo_two_rounds = 1"
    by (simp_all add: count_event_def demo_two_rounds_def)
  from th c have p: "pending 0 ?s = 1" by simp
  have "0 < length (calls ?s)" by simp
  with th have "ran_vals 0 (finished ?s) =
      mset (res (calls ?s ! 0)) + mset (got (calls ?s ! 0)) + sending_vals 0 (workers ?s)"
    by blast
  then have v: "ran_vals 0 (finished ?s) = {#Some (Other 3), None#}"
    by (simp add: sending_vals_def sending_of_def)
  have "0 < length (workers ?s) \<and> workers ?s ! 0 = Sending ?a None" by simp
  with th have "step fails_on_3 (Send 0) ?s =
      Some (put_call (response ?a) ((calls ?s ! response ?a)\<lparr>res := res (calls ?s ! response ?a) @ [None]\<rparr>)
             (?s\<lparr>workers := (workers ?s)[0 := Idle]\<rparr>))"
    by blast
  then have s: "step fails_on_3 (Send 0) ?s =
     Some \<lparr>p_done = False, p_in = [], p_in_cap = 1, workers = [Idle],
           calls = [\<lparr>actions = [3, 5], parent = None, pc = Collecting, derived = None,
                     res = [Some (Other 3), None], res_cap = 2, err = None, queued = 2,
                     sent = [3, 5], got = []\<rparr>],
           finished = [(\<lparr>ctx = 0, action = 3, response = 0\<rparr>, Some (Other 3)), (?a, None)]\<rparr>"
    by (simp add: put_call_def)
  from r c p v s show ?thesis unfolding r option.sel by (intro conjI)
qed

text \<open>
  C3. When the \<^verbatim>\<open>select\<close> of the enqueue phase takes the case of the pool's shutdown
  signal, \<^verbatim>\<open>Execute\<close> cancels the derived context and returns at once, in that one
  step, with the error "pool is closed". It has received no result, it leaves the result
  channel as it is, and it never receives one afterwards, whatever was enqueued before.
\<close>

theorem pool_closed_returns_at_once:
  assumes "run exec evs (Pool ncpu n d) = Some s" "i < length (calls s)"
    "pc (calls s ! i) = Enqueuing (a # rest)" "p_done s"
  shows "step exec (Select i CaseDone) s =
      Some (put_call i ((cancel (calls s ! i))\<lparr>pc := Returned (Some (New ''pool is closed''))\<rparr>) s)
    \<and> derived (cancel (calls s ! i)) \<noteq> None
    \<and> got (calls s ! i) = []
    \<and> queued (calls s ! i) = length (sent (calls s ! i))
    \<and> (run exec evs1
           (put_call i ((cancel (calls s ! i))\<lparr>pc := Returned (Some (New ''pool is closed''))\<rparr>) s)
         = Some s2 \<longrightarrow>
           pc (calls s2 ! i) = Returned (Some (New ''pool is closed''))
           \<and> got (calls s2 ! i) = []
           \<and> sent (calls s2 ! i) = sent (calls s ! i))"
proof -
  let ?c = "(cancel (calls s ! i))\<lparr>pc := Returned (Some (New ''pool is closed''))\<rparr>"
  have "pool_inv s" using assms(1) by (rule reach_inv)
  then have "call_ok (calls s ! i)" using assms(2) by (simp add: pool_inv_def calls_ok_def)
  with assms(3) have g: "got (calls s ! i) = []" "queued (calls s ! i) = length (sent (calls s ! i))"
    by (auto simp: call_ok_def)
  have st: "step exec (Select i CaseDone) s = Some (put_call i ?c s)"
    using assms(2,3,4) by (simp add: Execute_select_def)
  have d: "derived (cancel (calls s ! i)) \<noteq> None"
    by (simp add: derived_cancel split: option.splits)
  have later: "pc (calls s2 ! i) = Returned (Some (New ''pool is closed''))
      \<and> got (calls s2 ! i) = [] \<and> sent (calls s2 ! i) = sent (calls s ! i)"
    if r: "run exec evs1 (put_call i ?c s) = Some s2"
  proof -
    have 1: "i < length (calls (put_call i ?c s))" using assms(2) by simp
    have 2: "pc (calls (put_call i ?c s) ! i) = Returned (Some (New ''pool is closed''))"
      using assms(2) by simp
    from run_returned [OF r 1 2] g assms(2) show ?thesis by simp
  qed
  from st d g later show ?thesis by blast
qed

theorem pool_closed_returns_at_once_witness:
  "run always_nil demo_closed_mid_enqueue (Pool 1 1 False) =
     Some \<lparr>p_done = True, p_in = [], p_in_cap = 1, workers = [Idle],
           calls = [\<lparr>actions = [7, 8], parent = None, pc = Enqueuing [8], derived = None,
                     res = [None], res_cap = 2, err = None, queued = 1, sent = [7], got = []\<rparr>],
           finished = [(\<lparr>ctx = 0, action = 7, response = 0\<rparr>, None)]\<rparr>
   \<and> run always_nil (demo_closed_mid_enqueue @ [Select 0 CaseDone]) (Pool 1 1 False) =
     Some \<lparr>p_done = True, p_in = [], p_in_cap = 1, workers = [Idle],
           calls = [\<lparr>actions = [7, 8], parent = None,
                     pc = Returned (Some (New ''pool is closed'')), derived = Some Canceled,
                     res = [None], res_cap = 2, err = None, queued = 1, sent = [7], got = []\<rparr>],
           finished = [(\<lparr>ctx = 0, action = 7, response = 0\<rparr>, None)]\<rparr>
   \<and> step always_nil (Receive 0)
        (the (run always_nil (demo_closed_mid_enqueue @ [Select 0 CaseDone]) (Pool 1 1 False))) = None
   \<and> got (calls (the (run always_nil (demo_closed_mid_enqueue @ [Select 0 CaseDone, Quit 0])
                          (Pool 1 1 False))) ! 0) = []"
proof -
  let ?s = "\<lparr>p_done = True, p_in = [], p_in_cap = 1, workers = [Idle],
           calls = [\<lparr>actions = [7, 8], parent = None, pc = Enqueuing [8], derived = None,
                     res = [None], res_cap = 2, err = None, queued = 1, sent = [7], got = []\<rparr>],
           finished = [(\<lparr>ctx = 0, action = 7::nat, response = 0\<rparr>, None)]\<rparr>"
  let ?s1 = "\<lparr>p_done = True, p_in = [], p_in_cap = 1, workers = [Idle],
           calls = [\<lparr>actions = [7, 8], parent = None,
                     pc = Returned (Some (New ''pool is closed'')), derived = Some Canceled,
                     res = [None], res_cap = 2, err = None, queued = 1, sent = [7], got = []\<rparr>],
           finished = [(\<lparr>ctx = 0, action = 7::nat, response = 0\<rparr>, None)]\<rparr>"
  let ?s2 = "?s1\<lparr>workers := [Exited]\<rparr>"
  have r: "run always_nil demo_closed_mid_enqueue (Pool 1 1 False) = Some ?s"
    by (simp add: demo_closed_mid_enqueue_def run_simps always_nil_def)
  have p: "put_call 0 ((cancel (calls ?s ! 0))\<lparr>pc := Returned (Some (New ''pool is closed''))\<rparr>) ?s = ?s1"
    by (simp add: put_call_def cancel_def)
  have q: "run always_nil [Quit 0] ?s1 = Some ?s2"
    by (simp add: work_quit_def)
  note th = pool_closed_returns_at_once [OF r, where i = 0 and a = 8 and rest = "[]"
      and ?evs1.0 = "[Quit 0]" and ?s2.0 = ?s2, unfolded p]
  have h: "0 < length (calls ?s)" "pc (calls ?s ! 0) = Enqueuing [8]" "p_done ?s"
    by simp_all
  from th [OF h] q have st: "step always_nil (Select 0 CaseDone) ?s = Some ?s1"
    and g: "got (calls ?s2 ! 0) = []"
    by blast+
  have r1: "run always_nil (demo_closed_mid_enqueue @ [Select 0 CaseDone]) (Pool 1 1 False) = Some ?s1"
    using r st by (simp add: run_append)
  have r2: "run always_nil (demo_closed_mid_enqueue @ [Select 0 CaseDone, Quit 0]) (Pool 1 1 False)
      = Some ?s2"
    using r st q by (simp add: run_append)
  have rc: "step always_nil (Receive 0) ?s1 = None"
    by (simp add: on_call_def Execute_receive_def)
  from r r1 rc g show ?thesis unfolding r1 r2 option.sel by (intro conjI)
qed




text \<open>
  C8, as amended. The result channel of a call with a batch of length \<open>qty > 0\<close> has
  capacity \<open>qty\<close>. The number of results sent into it so far never exceeds the number of
  actions enqueued: it falls short of it by exactly the envelopes of the batch that are
  still in the queue, being executed, or about to be sent; and the number of actions
  enqueued is at most \<open>qty\<close>. Hence a worker's send on the result channel is never
  blocked, also after \<^verbatim>\<open>Execute\<close> has returned on the pool-closed path without
  receiving. The two numbers need not become equal: an envelope left in the queue when
  the workers return on the shutdown signal never yields a result, as the state
  \<open>stranded\<close> shows (once every worker has returned no result is sent any more, lemma
  \<open>all_exited_run\<close>).
\<close>

theorem results_never_block:
  assumes "run exec evs (Pool ncpu n d) = Some s" "i < length (calls s)"
    "pc (calls s ! i) \<noteq> AtEntry" "actions (calls s ! i) \<noteq> []"
  shows "res_cap (calls s ! i) = length (actions (calls s ! i))
    \<and> results_sent (calls s ! i) + size (sending_vals i (workers s))
        + size (busy_acts i (workers s)) + size (queued_acts i (p_in s))
        = length (sent (calls s ! i))
    \<and> length (sent (calls s ! i)) \<le> length (actions (calls s ! i))
    \<and> (w < length (workers s) \<and> workers s ! w = Sending a r \<and> response a = i \<longrightarrow>
          length (res (calls s ! i)) < res_cap (calls s ! i)
          \<and> step exec (Send w) s =
              Some (put_call i ((calls s ! i)\<lparr>res := res (calls s ! i) @ [r]\<rparr>)
                     (s\<lparr>workers := (workers s)[w := Idle]\<rparr>)))"
proof -
  have i: "pool_inv s" using assms(1) by (rule reach_inv)
  then have "call_ok (calls s ! i)" using assms(2) by (simp add: pool_inv_def calls_ok_def)
  then have cap: "res_cap (calls s ! i) = length (actions (calls s ! i))"
    using assms(3,4) by (simp add: call_ok_def)
  have "length (res (calls s ! i)) < res_cap (calls s ! i)
      \<and> step exec (Send w) s =
          Some (put_call i ((calls s ! i)\<lparr>res := res (calls s ! i) @ [r]\<rparr>)
                 (s\<lparr>workers := (workers s)[w := Idle]\<rparr>))"
    if "w < length (workers s) \<and> workers s ! w = Sending a r \<and> response a = i"
    using send_ready(2) [OF i, of w a r] step_Send_ready [OF i, of w a r exec] that by auto
  with cap results_bound [OF i assms(2)] sent_bound(1) [OF i assms(2)]
  show ?thesis by (simp add: results_sent_def)
qed

theorem results_never_block_witness:
  "run always_nil demo_closed_while_busy (Pool 1 1 False) =
     Some \<lparr>p_done = True, p_in = [], p_in_cap = 1,
           workers = [Sending \<lparr>ctx = 0, action = 7, response = 0\<rparr> None],
           calls = [\<lparr>actions = [7, 8], parent = None,
                     pc = Returned (Some (New ''pool is closed'')), derived = Some Canceled,
                     res = [], res_cap = 2, err = None, queued = 1, sent = [7], got = []\<rparr>],
           finished = [(\<lparr>ctx = 0, action = 7, response = 0\<rparr>, None)]\<rparr>
   \<and> step always_nil (Send 0)
        \<lparr>p_done = True, p_in = [], p_in_cap = 1,
           workers = [Sending \<lparr>ctx = 0, action = 7, response = 0\<rparr> None],
           calls = [\<lparr>actions = [7, 8], parent = None,
                     pc = Returned (Some (New ''pool is closed'')), derived = Some Canceled,
                     res = [], res_cap = 2, err = None, queued = 1, sent = [7], got = []\<rparr>],
           finished = [(\<lparr>ctx = 0, action = 7, response = 0\<rparr>, None)]\<rparr> =
     Some \<lparr>p_done = True, p_in = [], p_in_cap = 1, workers = [Idle],
           calls = [\<lparr>actions = [7, 8], parent = None,
                     pc = Returned (Some (New ''pool is closed'')), derived = Some Canceled,
                     res = [None], res_cap = 2, err = None, queued = 1, sent = [7], got = []\<rparr>],
           finished = [(\<lparr>ctx = 0, action = 7, response = 0\<rparr>, None)]\<rparr>"
proof -
  let ?a = "\<lparr>ctx = 0, action = 7::nat, response = 0\<rparr>"
  let ?s = "\<lparr>p_done = True, p_in = [], p_in_cap = 1, workers = [Sending ?a None],
           calls = [\<lparr>actions = [7, 8], parent = None,
                     pc = Returned (Some (New ''pool is closed'')), derived = Some Canceled,
                     res = [], res_cap = 2, err = None, queued = 1, sent = [7], got = []\<rparr>],
           finished = [(?a, None)]\<rparr>"
  have r: "run always_nil demo_closed_while_busy (Pool 1 1 False) = Some ?s"
    by (simp add: demo_closed_while_busy_def run_simps always_nil_def)
  have h: "0 < length (calls ?s)" "pc (calls ?s ! 0) \<noteq> AtEntry" "actions (calls ?s ! 0) \<noteq> []"
    by simp_all
  have w: "0 < length (workers ?s) \<and> workers ?s ! 0 = Sending ?a None \<and> response ?a = 0"
    by simp
  from results_never_block [OF r h, where w = 0 and a = ?a and r = None] w
  have "step always_nil (Send 0) ?s =
      Some (put_call 0 ((calls ?s ! 0)\<lparr>res := res (calls ?s ! 0) @ [None]\<rparr>)
             (?s\<lparr>workers := (workers ?s)[0 := Idle]\<rparr>))"
    by blast
  then have s: "step always_nil (Send 0) ?s =
     Some \<lparr>p_done = True, p_in = [], p_in_cap = 1, workers = [Idle],
           calls = [\<lparr>actions = [7, 8], parent = None,
                     pc = Returned (Some (New ''pool is closed'')), derived = Some Canceled,
                     res = [None], res_cap = 2, err = None, queued = 1, sent = [7], got = []\<rparr>],
           finished = [(?a, None)]\<rparr>"
    by (simp add: put_call_def)
  from r s show ?thesis by (intro conjI)
qed

theorem results_short_of_enqueued:
  "run always_nil demo_stranded (Pool 1 1 False) = Some stranded
   \<and> length (sent (calls stranded ! 0)) = 1
   \<and> results_sent (calls stranded ! 0) = 0
   \<and> workers stranded = [Exited]
   \<and> all_exited stranded"
  by (simp add: demo_stranded_def stranded_def run_simps always_nil_def results_sent_def
      all_exited_def)

text \<open>
  C4 fails on the code. With the caller's context cancelled before the call, the derived
  context is cancelled from line 30 on, and at the \<^verbatim>\<open>select\<close> of line 41 the case of
  the context and the send are both ready when the queue has room. Go's \<^verbatim>\<open>select\<close>
  takes either. When it takes the send, the action is enqueued after the cancellation, a
  worker executes it, and \<^verbatim>\<open>Execute\<close> receives its result and returns nil: it has not
  stopped enqueuing, and it has neither recorded nor returned the error of the context,
  against its own comment (failing closed if ctx is cancelled).
\<close>

theorem cancelled_yet_enqueued:
  "run always_nil (take 2 demo_cancelled_yet_sent) (Pool 1 1 False) = Some cancelled_at_select
   \<and> step always_nil (Select 0 CaseCtx) cancelled_at_select =
       Some (cancelled_at_select
              \<lparr>calls := [\<lparr>actions = [7], parent = Some Canceled, pc = Collecting,
                          derived = Some Canceled, res = [], res_cap = 1,
                          err = Some Canceled, queued = 0, sent = [], got = []\<rparr>]\<rparr>)
   \<and> step always_nil (Select 0 CaseSend) cancelled_at_select =
       Some (cancelled_at_select
              \<lparr>p_in := [\<lparr>ctx = 0, action = 7, response = 0\<rparr>],
               calls := [\<lparr>actions = [7], parent = Some Canceled, pc = Collecting,
                          derived = Some Canceled, res = [], res_cap = 1, err = None,
                          queued = 1, sent = [7], got = []\<rparr>]\<rparr>)
   \<and> run always_nil demo_cancelled_yet_sent (Pool 1 1 False) =
     Some \<lparr>p_done = False, p_in = [], p_in_cap = 1, workers = [Idle],
           calls = [\<lparr>actions = [7], parent = Some Canceled, pc = Returned None,
                     derived = Some Canceled, res = [], res_cap = 1, err = None, queued = 0,
                     sent = [7], got = [None]\<rparr>],
           finished = [(\<lparr>ctx = 0, action = 7, response = 0\<rparr>, None)]\<rparr>"
  by (simp add: demo_cancelled_yet_sent_def cancelled_at_select_def run_simps always_nil_def)

text \<open>
  C1, as amended. \<^verbatim>\<open>Execute\<close> returns nil only if every action of the batch was
  enqueued, was executed exactly once and returned nil, and every one of these results was
  received; and on the way to a nil return \<^verbatim>\<open>Execute\<close> has not itself cancelled the
  batch: as long as the derived context exists it is in the state of the caller's
  context. Conversely, in a batch every action of which returns nil when its context has
  not ended, as long as the caller's context has not ended and the pool is not shut down
  (and the pool has a worker), \<^verbatim>\<open>Execute\<close> can only return nil; it does return:
  until it has, some step of the program is ready, every step of the program makes the
  bound \<open>work_left\<close> smaller, so every run of the program alone is finite and ends with
  the call returned, nil, and every action executed exactly once. A nil return does not
  exclude that the caller's context, and the derived context with it, ended before the
  last result arrived: the collection phase never looks at the context, as
  \<open>demo_cancelled_while_collecting\<close> shows.
\<close>

theorem Execute_nil:
  assumes "run exec evs (Pool ncpu n d) = Some s" "i < length (calls s)"
  shows "(pc (calls s ! i) = Returned None \<longrightarrow>
            sent (calls s ! i) = actions (calls s ! i)
            \<and> ran_acts i (finished s) = mset (actions (calls s ! i))
            \<and> ran_vals i (finished s) = mset (got (calls s ! i))
            \<and> got (calls s ! i) = replicate (length (actions (calls s ! i))) None)
    \<and> (has_derived (calls s ! i) \<and> run exec evs1 s = Some s1
          \<and> pc (calls s1 ! i) = Returned None \<longrightarrow>
            derived (calls s ! i) = parent (calls s ! i))
    \<and> (quiet exec i s \<and> 0 < effective ncpu n \<longrightarrow>
          (\<forall>r. pc (calls s ! i) = Returned r \<longrightarrow> r = None)
          \<and> ((\<forall>r. pc (calls s ! i) \<noteq> Returned r) \<longrightarrow> (\<exists>e. program e \<and> step exec e s \<noteq> None))
          \<and> (\<exists>evs2 s2. (\<forall>e\<in>set evs2. program e) \<and> run exec evs2 s = Some s2
                \<and> pc (calls s2 ! i) = Returned None
                \<and> ran_acts i (finished s2) = mset (actions (calls s ! i))))
    \<and> ((\<forall>e\<in>set evs3. program e) \<and> run exec evs3 s = Some s3 \<longrightarrow>
          length evs3 + work_left s3 \<le> work_left s)"
proof -
  have inv: "pool_inv s" using assms(1) by (rule reach_inv)
  have cok: "call_ok (calls s ! i)" using inv assms(2) by (simp add: pool_inv_def calls_ok_def)
  have A: "sent (calls s ! i) = actions (calls s ! i)
      \<and> ran_acts i (finished s) = mset (actions (calls s ! i))
      \<and> ran_vals i (finished s) = mset (got (calls s ! i))
      \<and> got (calls s ! i) = replicate (length (actions (calls s ! i))) None"
    if "pc (calls s ! i) = Returned None"
    using returned_nil_facts [OF inv assms(2) that] by simp
  have D: "derived (calls s ! i) = parent (calls s ! i)"
    if "has_derived (calls s ! i) \<and> run exec evs1 s = Some s1
          \<and> pc (calls s1 ! i) = Returned None"
  proof (cases "pc (calls s ! i)")
    case AtEntry
    with that show ?thesis by (simp add: has_derived_def)
  next
    case (Enqueuing rest)
    with cok show ?thesis by (simp add: call_ok_def)
  next
    case Collecting
    from that have r: "run exec evs1 s = Some s1" and nil: "pc (calls s1 ! i) = Returned None"
      by simp_all
    from run_collecting [OF r assms(2) Collecting] obtain g where
      g: "err (calls s1 ! i) = first_error (err (calls s ! i)) g"
      and p: "pc (calls s1 ! i) = Collecting
        \<or> pc (calls s1 ! i) = Returned (err (calls s1 ! i)) \<and> queued (calls s1 ! i) = 0"
      by blast
    from p nil have "err (calls s1 ! i) = None" by simp
    with g have "err (calls s ! i) = None"
      by (cases "err (calls s ! i)") (simp_all add: first_error_def)
    with cok Collecting show ?thesis by (simp add: call_ok_def)
  next
    case (Returned r)
    with that show ?thesis by (simp add: has_derived_def)
  qed
  have B: "(\<forall>r. pc (calls s ! i) = Returned r \<longrightarrow> r = None)
      \<and> ((\<forall>r. pc (calls s ! i) \<noteq> Returned r) \<longrightarrow> (\<exists>e. program e \<and> step exec e s \<noteq> None))
      \<and> (\<exists>evs2 s2. (\<forall>e\<in>set evs2. program e) \<and> run exec evs2 s = Some s2
            \<and> pc (calls s2 ! i) = Returned None
            \<and> ran_acts i (finished s2) = mset (actions (calls s ! i)))"
    if q: "quiet exec i s" and w: "0 < effective ncpu n"
  proof -
    have nd: "\<not> p_done s" using q by (simp add: quiet_def)
    have cap: "0 < p_in_cap s"
      using run_p_in_cap [OF assms(1)] w by (simp add: p_in_cap_Pool)
    have 1: "\<forall>r. pc (calls s ! i) = Returned r \<longrightarrow> r = None"
      using undisturbed_reach [OF assms] q by (simp add: undisturbed_def)
    have 2: "\<exists>e. program e \<and> step exec e s \<noteq> None" if "\<forall>r. pc (calls s ! i) \<noteq> Returned r"
      using progress [OF inv nd cap assms(2) that] .
    from can_return [OF inv nd cap assms(2), of exec] obtain evs2 s2 r where
      r: "\<forall>e\<in>set evs2. program e" "run exec evs2 s = Some s2" "pc (calls s2 ! i) = Returned r"
      by blast
    from program_run_keeps [OF r(2,1) assms(2)]
    have k: "p_done s2 = p_done s" "length (calls s2) = length (calls s)"
      "parent (calls s2 ! i) = parent (calls s ! i)" "actions (calls s2 ! i) = actions (calls s ! i)"
      by simp_all
    have reach2: "run exec (evs @ evs2) (Pool ncpu n d) = Some s2"
      using assms(1) r(2) by (simp add: run_append)
    have i2: "i < length (calls s2)" using k(2) assms(2) by simp
    have "quiet exec i s2" using q k by (simp add: quiet_def)
    with undisturbed_reach [OF reach2 i2] r(3) have nil: "pc (calls s2 ! i) = Returned None"
      by (simp add: undisturbed_def)
    from returned_nil_facts(2) [OF reach_inv [OF reach2] i2 nil] k(4)
    have "ran_acts i (finished s2) = mset (actions (calls s ! i))" by simp
    with r(1,2) nil have 3: "\<exists>evs2 s2. (\<forall>e\<in>set evs2. program e) \<and> run exec evs2 s = Some s2
            \<and> pc (calls s2 ! i) = Returned None
            \<and> ran_acts i (finished s2) = mset (actions (calls s ! i))"
      by blast
    from 1 2 3 show ?thesis by blast
  qed
  have C: "length evs3 + work_left s3 \<le> work_left s"
    if "(\<forall>e\<in>set evs3. program e) \<and> run exec evs3 s = Some s3"
    using program_run_bound [of exec evs3 s s3] that by simp
  from A D B C show ?thesis by blast
qed

theorem Execute_nil_witness:
  "run obeys_ctx demo_one_queued (Pool 1 1 False) = Some one_queued
   \<and> run obeys_ctx demo_to_the_end one_queued = Some both_done
   \<and> quiet obeys_ctx 0 one_queued
   \<and> quiet obeys_ctx 0 both_done
   \<and> obeys_ctx 7 (Some Canceled) = Some Canceled
   \<and> 0 < effective 1 1
   \<and> list_all program demo_to_the_end
   \<and> step obeys_ctx (Select 0 CaseSend) one_queued = None
   \<and> step obeys_ctx (Take 0) one_queued \<noteq> None
   \<and> (\<exists>e. program e \<and> step obeys_ctx e one_queued \<noteq> None)
   \<and> (\<exists>evs2 s2. list_all program evs2 \<and> run obeys_ctx evs2 one_queued = Some s2
          \<and> pc (calls s2 ! 0) = Returned None \<and> ran_acts 0 (finished s2) = {#7, 8#})
   \<and> has_derived (calls one_queued ! 0)
   \<and> derived (calls one_queued ! 0) = parent (calls one_queued ! 0)
   \<and> pc (calls both_done ! 0) = Returned None
   \<and> ran_acts 0 (finished both_done) = {#7, 8#}
   \<and> work_left one_queued = 12 \<and> work_left both_done = 1
   \<and> length demo_to_the_end + work_left both_done \<le> work_left one_queued"
proof -
  have r: "run obeys_ctx demo_one_queued (Pool 1 1 False) = Some one_queued"
    by (simp add: demo_one_queued_def one_queued_def run_simps obeys_ctx_def)
  have r1: "run obeys_ctx demo_to_the_end one_queued = Some both_done"
    by (simp add: demo_to_the_end_def one_queued_def both_done_def run_simps obeys_ctx_def)
  have r2: "run obeys_ctx (demo_one_queued @ demo_to_the_end) (Pool 1 1 False) = Some both_done"
    using r r1 by (simp add: run_append)
  have q: "quiet obeys_ctx 0 one_queued" "quiet obeys_ctx 0 both_done"
    by (simp_all add: quiet_def obeys_ctx_def one_queued_def both_done_def)
  have o: "obeys_ctx 7 (Some Canceled) = Some Canceled" by (simp add: obeys_ctx_def)
  have e: "0 < effective 1 1" by (simp add: effective_def)
  have p: "list_all program demo_to_the_end"
    by (simp add: demo_to_the_end_def program_def)
  then have p': "\<forall>e\<in>set demo_to_the_end. program e" by (simp add: list_all_iff)
  have i: "0 < length (calls one_queued)" "0 < length (calls both_done)"
    by (simp_all add: one_queued_def both_done_def)
  have f: "step obeys_ctx (Select 0 CaseSend) one_queued = None"
    "step obeys_ctx (Take 0) one_queued \<noteq> None"
    by (simp_all add: one_queued_def Execute_select_def work_take_def)
  have hd: "has_derived (calls one_queued ! 0)"
    by (simp add: one_queued_def has_derived_def)
  have d: "pc (calls both_done ! 0) = Returned None" by (simp add: both_done_def)
  note mid = Execute_nil [OF r i(1), where ?evs1.0 = demo_to_the_end and ?s1.0 = both_done
      and ?evs3.0 = demo_to_the_end and ?s3.0 = both_done]
  note fin = Execute_nil [OF r2 i(2)]
  from mid hd r1 d have dp: "derived (calls one_queued ! 0) = parent (calls one_queued ! 0)"
    by blast
  have nr: "\<forall>r. pc (calls one_queued ! 0) \<noteq> Returned r" by (simp add: one_queued_def)
  from mid q(1) e nr have x1: "\<exists>e. program e \<and> step obeys_ctx e one_queued \<noteq> None"
    by blast
  from mid q(1) e have "\<exists>evs2 s2. (\<forall>e\<in>set evs2. program e)
      \<and> run obeys_ctx evs2 one_queued = Some s2 \<and> pc (calls s2 ! 0) = Returned None
      \<and> ran_acts 0 (finished s2) = mset (actions (calls one_queued ! 0))"
    by blast
  moreover have "mset (actions (calls one_queued ! 0)) = {#7, 8#}"
    by (simp add: one_queued_def)
  ultimately
  have x2: "\<exists>evs2 s2. list_all program evs2 \<and> run obeys_ctx evs2 one_queued = Some s2
      \<and> pc (calls s2 ! 0) = Returned None \<and> ran_acts 0 (finished s2) = {#7, 8#}"
    by (simp only: list_all_iff)
  from fin d have "ran_acts 0 (finished both_done) = mset (actions (calls both_done ! 0))"
    by blast
  then have a: "ran_acts 0 (finished both_done) = {#7, 8#}" by (simp add: both_done_def)
  from mid p' r1 have b: "length demo_to_the_end + work_left both_done \<le> work_left one_queued"
    by blast
  have wl: "work_left one_queued = 12" "work_left both_done = 1"
    by (simp_all add: work_left_def call_left_def worker_left_def one_queued_def both_done_def)
  from r r1 q o e p f x1 x2 hd dp d a wl b show ?thesis by (intro conjI)
qed

theorem nil_although_cancelled:
  "run always_nil (take 4 demo_cancelled_while_collecting) (Pool 1 1 False) =
     Some \<lparr>p_done = False, p_in = [\<lparr>ctx = 0, action = 7, response = 0\<rparr>], p_in_cap = 1,
           workers = [Idle],
           calls = [\<lparr>actions = [7], parent = Some Canceled, pc = Collecting,
                     derived = Some Canceled, res = [], res_cap = 1, err = None, queued = 1,
                     sent = [7], got = []\<rparr>],
           finished = []\<rparr>
   \<and> run always_nil demo_cancelled_while_collecting (Pool 1 1 False) =
     Some \<lparr>p_done = False, p_in = [], p_in_cap = 1, workers = [Idle],
           calls = [\<lparr>actions = [7], parent = Some Canceled, pc = Returned None,
                     derived = Some Canceled, res = [], res_cap = 1, err = None, queued = 0,
                     sent = [7], got = [None]\<rparr>],
           finished = [(\<lparr>ctx = 0, action = 7, response = 0\<rparr>, None)]\<rparr>"
  by (simp add: demo_cancelled_while_collecting_def run_simps always_nil_def)

end
